theory Spec2Isabelle
  imports Complex_Main "HOL-Library.Word"
begin

section \<open>The bladeRF sink: stream configuration\<close>

text \<open>
  The constructor of \<open>bladerf_sink_c\<close> reads three numeric keys of the argument
  dictionary with \<open>boost::lexical_cast<size_t>\<close>. The embedding takes the parsed value
  of each key (\<open>None\<close> when the key is absent) and follows the constructor from the
  line \<open>_num_buffers = _samples_per_buffer = 0\<close> to the call of
  \<open>bladerf_init_stream\<close>. \<open>size_t\<close> is 64 bits wide and \<open>unsigned int\<close> 32 bits
  wide (the LP64 data model of the Linux hosts the block is built for); the assignment
  of a \<open>size_t\<close> to the \<open>unsigned int transfers\<close> keeps the low 32 bits.
\<close>

type_synonym size_t = "64 word"
type_synonym uint = "32 word"

text \<open>A C \<open>int\<close>: 32 bits, signed (read with \<open>sint\<close>).\<close>

type_synonym cint = "32 word"

definition INT_MIN :: cint where
  "INT_MIN = word_of_int (- 2147483648)"

definition NUM_BUFFERS :: size_t where
  "NUM_BUFFERS = 32"

definition NUM_SAMPLES_PER_BUFFER :: size_t where
  "NUM_SAMPLES_PER_BUFFER = 4096"

text \<open>\<open>sizeof(int16_t)\<close>, as a \<open>size_t\<close>.\<close>

definition sizeof_int16 :: size_t where
  "sizeof_int16 = 2"

record config_args =
  arg_buffers :: "size_t option"
  arg_buflen :: "size_t option"
  arg_transfers :: "size_t option"

record stream_config =
  num_buffers :: size_t
  samples_per_buffer :: size_t
  transfers :: uint

text \<open>The value a key leaves in its variable: the variable starts at 0.\<close>

definition key_value :: "size_t option \<Rightarrow> size_t" where
  "key_value k = (case k of None \<Rightarrow> 0 | Some v \<Rightarrow> v)"

definition configure_num_buffers :: "size_t \<Rightarrow> size_t" where
  "configure_num_buffers nb = (if nb \<le> 1 then NUM_BUFFERS else nb)"

definition configure_samples_per_buffer :: "size_t \<Rightarrow> size_t" where
  "configure_samples_per_buffer spb =
     (if 0 = spb then NUM_SAMPLES_PER_BUFFER
      else let q = spb div (2 * sizeof_int16)
           in if q < 1024 \<or> q mod 1024 \<noteq> 0 then NUM_SAMPLES_PER_BUFFER else q)"

definition configure_transfers :: "size_t \<Rightarrow> uint \<Rightarrow> uint" where
  "configure_transfers nb tr =
     (if tr = 0 \<or> (ucast tr :: size_t) > nb div 2 then ucast (nb div 2) else tr)"

definition configure :: "config_args \<Rightarrow> stream_config" where
  "configure a =
     (let nb = configure_num_buffers (key_value (arg_buffers a));
          spb = configure_samples_per_buffer (key_value (arg_buflen a));
          tr = configure_transfers nb (ucast (key_value (arg_transfers a)))
      in \<lparr>num_buffers = nb, samples_per_buffer = spb, transfers = tr\<rparr>)"

section \<open>Device control: centre frequency and gain stages\<close>

text \<open>
  The register accesses go through libbladeRF, an external library: its entry points are
  parameters of the embedding. Each takes the device state and gives the status code
  (0 on success), the value read where there is one, and the device state after the call.
  The sink records every call it issues in \<open>calls\<close> (oldest first) and every line it
  writes to \<open>std::cerr\<close> in \<open>cerr\<close>.
\<close>

datatype dev_call =
    SetFrequency uint
  | GetFrequency
  | SetTxVga1 cint
  | SetTxVga2 cint
  | GetTxVga1
  | GetTxVga2

record 'd bladerf =
  bladerf_set_frequency :: "'d \<Rightarrow> uint \<Rightarrow> int \<times> 'd"
  bladerf_get_frequency :: "'d \<Rightarrow> int \<times> uint \<times> 'd"
  bladerf_set_txvga1 :: "'d \<Rightarrow> cint \<Rightarrow> int \<times> 'd"
  bladerf_set_txvga2 :: "'d \<Rightarrow> cint \<Rightarrow> int \<times> 'd"
  bladerf_get_txvga1 :: "'d \<Rightarrow> int \<times> cint \<times> 'd"
  bladerf_get_txvga2 :: "'d \<Rightarrow> int \<times> cint \<times> 'd"

record gain_range_t =
  range_start :: real
  range_stop :: real
  range_step :: real

text \<open>
  \<open>freq_range()\<close> is declared outside this file (in \<open>bladerf_common\<close>): the range it
  returns is a parameter.
\<close>

record freq_range_t =
  freq_start :: real
  freq_stop :: real

record 'd sink =
  dev :: 'd
  calls :: "dev_call list"
  cerr :: "string list"
  vga1_range :: gain_range_t
  vga2_range :: gain_range_t

text \<open>The \<open>std::runtime_error\<close>s of the control operations, by the place that throws.\<close>

datatype error =
    SetCenterFreqFailed int
  | GetCenterFreqFailed int
  | InvalidGainElement string
  | SetUnknownGainElement string
  | SetGainFailed string int
  | GetUnknownGainElement string
  | GetGainFailed string int

text \<open>A C cast of a \<open>double\<close> to an integer type drops the fraction (towards zero).\<close>

definition trunc_toward_zero :: "real \<Rightarrow> int" where
  "trunc_toward_zero x = (if 0 \<le> x then \<lfloor>x\<rfloor> else \<lceil>x\<rceil>)"

definition double_to_uint32 :: "real \<Rightarrow> uint" where
  "double_to_uint32 x = word_of_int (trunc_toward_zero x)"

text \<open>
  The gain arguments and results of libbladeRF are \<open>int\<close>s.
  The cast \<open>(int)gain\<close> of a \<open>double\<close>. When the value with its fraction dropped is an
  \<open>int\<close>, that is the result. Otherwise C++ leaves the conversion undefined; the
  embedding takes what the x86-64 build computes there (\<open>cvttsd2si\<close> gives the
  "integer indefinite" value, \<open>INT_MIN\<close>).
\<close>

definition double_to_int :: "real \<Rightarrow> cint" where
  "double_to_int x =
     (let t = trunc_toward_zero x
      in if - 2147483648 \<le> t \<and> t \<le> 2147483647 then word_of_int t else INT_MIN)"

definition get_center_freq :: "'d bladerf \<Rightarrow> nat \<Rightarrow> 'd sink \<Rightarrow> (error + real) \<times> 'd sink" where
  "get_center_freq api chan s =
     (case bladerf_get_frequency api (dev s) of
        (ret, freq, d') \<Rightarrow>
          let s' = s\<lparr>dev := d', calls := calls s @ [GetFrequency]\<rparr>
          in if ret \<noteq> 0 then (Inl (GetCenterFreqFailed ret), s')
             else (Inr (real (unat freq)), s'))"

definition set_center_freq ::
  "'d bladerf \<Rightarrow> freq_range_t \<Rightarrow> real \<Rightarrow> nat \<Rightarrow> 'd sink \<Rightarrow> (error + real) \<times> 'd sink" where
  "set_center_freq api rng freq chan s =
     (if freq < freq_start rng \<or> freq > freq_stop rng
      then get_center_freq api chan
             (s\<lparr>cerr := cerr s @ [''Failed to set out of bound frequency'']\<rparr>)
      else case bladerf_set_frequency api (dev s) (double_to_uint32 freq) of
             (ret, d') \<Rightarrow>
               let s' = s\<lparr>dev := d',
                            calls := calls s @ [SetFrequency (double_to_uint32 freq)]\<rparr>
               in if ret \<noteq> 0 then (Inl (SetCenterFreqFailed ret), s')
                  else get_center_freq api chan s')"

definition get_gain_range ::
  "string \<Rightarrow> nat \<Rightarrow> 'd sink \<Rightarrow> (error + gain_range_t) \<times> 'd sink" where
  "get_gain_range name chan s =
     (if name = ''VGA1'' then (Inr (vga1_range s), s)
      else if name = ''VGA2'' then (Inr (vga2_range s), s)
      else (Inl (InvalidGainElement name), s))"

definition get_gain ::
  "'d bladerf \<Rightarrow> string \<Rightarrow> nat \<Rightarrow> 'd sink \<Rightarrow> (error + real) \<times> 'd sink" where
  "get_gain api name chan s =
     (if name = ''VGA1'' then
        (case bladerf_get_txvga1 api (dev s) of
           (ret, g, d') \<Rightarrow>
             let s' = s\<lparr>dev := d', calls := calls s @ [GetTxVga1]\<rparr>
             in if ret \<noteq> 0 then (Inl (GetGainFailed name ret), s')
                else (Inr (real_of_int (sint g)), s'))
      else if name = ''VGA2'' then
        (case bladerf_get_txvga2 api (dev s) of
           (ret, g, d') \<Rightarrow>
             let s' = s\<lparr>dev := d', calls := calls s @ [GetTxVga2]\<rparr>
             in if ret \<noteq> 0 then (Inl (GetGainFailed name ret), s')
                else (Inr (real_of_int (sint g)), s'))
      else (Inl (GetUnknownGainElement name), s))"

definition set_gain ::
  "'d bladerf \<Rightarrow> real \<Rightarrow> string \<Rightarrow> nat \<Rightarrow> 'd sink \<Rightarrow> (error + real) \<times> 'd sink" where
  "set_gain api gain name chan s =
     (if name = ''VGA1'' then
        (case bladerf_set_txvga1 api (dev s) (double_to_int gain) of
           (ret, d') \<Rightarrow>
             let s' = s\<lparr>dev := d',
                          calls := calls s @ [SetTxVga1 (double_to_int gain)]\<rparr>
             in if ret \<noteq> 0 then (Inl (SetGainFailed name ret), s')
                else get_gain api name chan s')
      else if name = ''VGA2'' then
        (case bladerf_set_txvga2 api (dev s) (double_to_int gain) of
           (ret, d') \<Rightarrow>
             let s' = s\<lparr>dev := d',
                          calls := calls s @ [SetTxVga2 (double_to_int gain)]\<rparr>
             in if ret \<noteq> 0 then (Inl (SetGainFailed name ret), s')
                else get_gain api name chan s')
      else (Inl (SetUnknownGainElement name), s))"

text \<open>
  A device double for the closed examples: its state is the triple of the frequency and
  the two gain registers, every write succeeds and stores the value, and every read
  returns the status code \<open>rc\<close> with the stored value.
\<close>

definition register_device :: "int \<Rightarrow> (uint \<times> cint \<times> cint) bladerf" where
  "register_device rc =
     \<lparr>bladerf_set_frequency = (\<lambda>(f, g1, g2) v. (0, (v, g1, g2))),
      bladerf_get_frequency = (\<lambda>(f, g1, g2). (rc, f, (f, g1, g2))),
      bladerf_set_txvga1 = (\<lambda>(f, g1, g2) v. (0, (f, v, g2))),
      bladerf_set_txvga2 = (\<lambda>(f, g1, g2) v. (0, (f, g1, v))),
      bladerf_get_txvga1 = (\<lambda>(f, g1, g2). (rc, g1, (f, g1, g2))),
      bladerf_get_txvga2 = (\<lambda>(f, g1, g2). (rc, g2, (f, g1, g2)))\<rparr>"

text \<open>The sink as the constructor leaves it, on a device tuned to 433 MHz.\<close>

definition fresh_sink :: "(uint \<times> cint \<times> cint) sink" where
  "fresh_sink =
     \<lparr>dev = (433000000, -14, 0), calls = [], cerr = [],
      vga1_range = \<lparr>range_start = -35, range_stop = -4, range_step = 1\<rparr>,
      vga2_range = \<lparr>range_start = 0, range_stop = 25, range_step = 1\<rparr>\<rparr>"

definition bladerf_freq_range :: freq_range_t where
  "bladerf_freq_range = \<lparr>freq_start = 300000000, freq_stop = 3800000000\<rparr>"

section \<open>The sample converter\<close>

text \<open>
  \<open>gr_complex\<close> is a pair of binary32 floats. A finite binary32 value is an integer
  mantissa times a power of two: \<open>Float32 m e\<close> stands for \<open>m * 2^e\<close>, with
  \<open>\<bar>m\<bar> < 2^24\<close> and \<open>-149 \<le> e \<le> 104\<close> for the values a \<open>float\<close> can hold
  (\<open>finite32\<close>); \<open>Infinity neg\<close> is the infinity of that sign and \<open>NaN\<close> a not-a-number.
  The sign of a zero is not kept: it changes no product that is cast to an integer.
\<close>

datatype float32 = Float32 int int | Infinity bool | NaN

text \<open>The value of a finite float (0 is returned for the others).\<close>

definition float32_value :: "float32 \<Rightarrow> real" where
  "float32_value x = (case x of Float32 m e \<Rightarrow> of_int m * 2 powi e | _ \<Rightarrow> 0)"



fun bit_length :: "nat \<Rightarrow> nat" where
  "bit_length n = (if n = 0 then 0 else Suc (bit_length (n div 2)))"

declare bit_length.simps [simp del]

text \<open>
  The converter computes \<open>(int16_t)(real(*in) * 2000)\<close>: the \<open>int\<close> 2000 is converted
  to \<open>float\<close> (exactly) and the product is a \<open>float\<close> product.
  Rounding \<open>p * 2^e\<close> to binary32, to nearest with ties to even: \<open>k\<close> low bits of the
  mantissa are dropped, as many as it takes to bring it to 24 bits and the exponent to
  -149 at least; a result of magnitude \<open>2^128\<close> or more is an infinity.
\<close>

definition float32_round :: "int \<Rightarrow> int \<Rightarrow> float32" where
  "float32_round p e =
     (let k = max (int (bit_length (nat \<bar>p\<bar>)) - 24) (- 149 - e);
          d = 2 ^ nat k;
          q = \<bar>p\<bar> div d;
          r = \<bar>p\<bar> mod d;
          h = d div 2;
          q' = (if r > h \<or> (r = h \<and> odd q) then q + 1 else q);
          m = (if k \<le> 0 then p else sgn p * q');
          g = (if k \<le> 0 then e else e + k)
      in if 0 \<le> g \<and> 2 ^ 128 \<le> \<bar>m\<bar> * 2 ^ nat g then Infinity (p < 0) else Float32 m g)"

fun float32_mul :: "float32 \<Rightarrow> float32 \<Rightarrow> float32" where
  "float32_mul (Float32 m1 e1) (Float32 m2 e2) = float32_round (m1 * m2) (e1 + e2)"
| "float32_mul (Float32 m e) (Infinity s) = (if m = 0 then NaN else Infinity (s \<noteq> (m < 0)))"
| "float32_mul (Infinity s) (Float32 m e) = (if m = 0 then NaN else Infinity (s \<noteq> (m < 0)))"
| "float32_mul (Infinity s) (Infinity t) = Infinity (s \<noteq> t)"
| "float32_mul NaN y = NaN"
| "float32_mul x NaN = NaN"

text \<open>The value \<open>m * 2^e\<close> with its fraction dropped (towards zero).\<close>

definition float_trunc :: "int \<Rightarrow> int \<Rightarrow> int" where
  "float_trunc m e = (if 0 \<le> e then m * 2 ^ nat e else sgn m * (\<bar>m\<bar> div 2 ^ nat (- e)))"

text \<open>
  The cast \<open>(int16_t)\<close> of a \<open>float\<close>. The code does not clamp. When the value with its
  fraction dropped is an \<open>int16_t\<close>, that is the result. Otherwise C++ leaves the
  conversion undefined; the embedding takes what the x86-64 build computes there: the
  float is converted to a 32-bit \<open>int\<close> (\<open>cvttss2si\<close>, which gives the "integer indefinite"
  value \<open>INT_MIN\<close> when the float is no 32-bit \<open>int\<close>, a NaN or an infinity included) and
  the low 16 bits of that are stored.
\<close>

definition float_to_int :: "float32 \<Rightarrow> cint" where
  "float_to_int x =
     (case x of
        Float32 m e \<Rightarrow>
          let t = float_trunc m e
          in if - 2147483648 \<le> t \<and> t \<le> 2147483647 then word_of_int t else INT_MIN
      | _ \<Rightarrow> INT_MIN)"

definition float_to_int16 :: "float32 \<Rightarrow> 16 word" where
  "float_to_int16 x = ucast (float_to_int x)"

definition SCALE :: float32 where
  "SCALE = Float32 2000 0"

definition scale_component :: "float32 \<Rightarrow> 16 word" where
  "scale_component x = float_to_int16 (float32_mul x SCALE)"

record gr_complex =
  sample_real :: float32
  sample_imag :: float32

text \<open>
  The two stores of the inner loop of \<open>work\<close>: I at the write cursor, Q in the next
  cell. Memory is a map from the address of an \<open>int16_t\<close> cell to its content.
\<close>

definition write_sample :: "gr_complex \<Rightarrow> nat \<Rightarrow> (nat \<Rightarrow> 16 word) \<Rightarrow> (nat \<Rightarrow> 16 word)" where
  "write_sample x a m =
     (m(a := scale_component (sample_real x)))(a + 1 := scale_component (sample_imag x))"



text \<open>The binary32 values nearest to 0.1, to -0.2 and to 0.0025.\<close>

definition float_0_1 :: float32 where
  "float_0_1 = Float32 13421773 (- 27)"

definition float_m0_2 :: float32 where
  "float_m0_2 = Float32 (- 13421773) (- 26)"


section \<open>The streaming pipeline\<close>

text \<open>
  Two threads share the buffer pool: the caller's thread runs \<open>work\<close> (the Producer),
  the streaming thread runs \<open>write_task\<close>, in which libbladeRF's \<open>bladerf_stream\<close>
  invokes \<open>stream_callback\<close>, that is \<open>get_next_buffer\<close> (the Consumer). A third
  context runs the destructor. The embedding is a transition system: the state holds
  the members of \<open>bladerf_sink_c\<close>, the locals and the control point of each thread, and
  one step runs one thread from a control point to the next. Every access to
  \<open>_filled\<close> is made under \<open>_buf_status_lock\<close>; a thread holds the lock from a
  \<open>unique_lock\<close> to the end of its scope or to a \<open>wait\<close>, so each such stretch is one
  step. Only the destructor keeps the lock over several steps (\<open>lock_held\<close>).
\<close>

datatype p_pc =
    P_Idle
  | P_Outer
  | P_Inner
  | P_Full
  | P_Waiting
  | P_Woken
  | P_Done int

datatype c_pc =
    C_Idle
  | C_Call "nat option"
  | C_Waiting
  | C_Woken
  | C_Ret "nat option"
  | C_Threw
  | C_Exited

datatype d_pc =
    D_Idle
  | D_Stopped
  | D_Locked
  | D_Notified_Samp_Avail
  | D_Notified_Buffer_Emptied
  | D_Unlocked
  | D_Joined
  | D_Module_Disabled
  | D_Stream_Released
  | D_Device_Closed
  | D_Filled_Deleted

record pipeline =
  running :: bool
  n_buffers :: nat
  n_samples :: nat
  n_transfers :: nat
  buffers :: "nat list"
  mem :: "nat \<Rightarrow> 16 word"
  filled :: "bool list"
  buf_index :: nat
  next_to_tx :: nat
  next_value :: nat
  samples_left :: nat
  p_pc :: p_pc
  p_running :: bool
  p_num_samples :: int
  p_noutput :: int
  p_in :: "gr_complex list"
  c_pc :: c_pc
  inflight :: "nat list"
  d_pc :: d_pc
  lock_held :: bool
  assignments :: "(nat \<times> bool) list"

text \<open>
  \<open>running\<close> is the flag behind \<open>set_running\<close> and \<open>is_running\<close>, which are declared
  outside this file; it has a lock of its own, so it is read and written in any state.
  \<open>buffers\<close> holds the addresses \<open>bladerf_init_stream\<close> stored in \<open>_buffers\<close>;
  \<open>None\<close> is the null pointer. \<open>inflight\<close> is the queue of buffers libbladeRF has
  submitted to the hardware, oldest first. \<open>assignments\<close> is a history variable: every
  assignment \<open>_filled[i] = b\<close> made so far, oldest first.
\<close>

definition set_filled :: "nat \<Rightarrow> bool \<Rightarrow> pipeline \<Rightarrow> pipeline" where
  "set_filled i b s =
     s\<lparr>filled := (filled s)[i := b], assignments := assignments s @ [(i, b)]\<rparr>"

text \<open>
  Only the Consumer waits on \<open>_samp_avail\<close> and only the Producer on
  \<open>_buffer_emptied\<close>: \<open>notify_one\<close> and \<open>notify_all\<close> wake the same thread.
\<close>

definition notify_samp_avail :: "pipeline \<Rightarrow> pipeline" where
  "notify_samp_avail s = (if c_pc s = C_Waiting then s\<lparr>c_pc := C_Woken\<rparr> else s)"

definition notify_buffer_emptied :: "pipeline \<Rightarrow> pipeline" where
  "notify_buffer_emptied s = (if p_pc s = P_Waiting then s\<lparr>p_pc := P_Woken\<rparr> else s)"

subsection \<open>The Producer: \<open>work\<close>\<close>

text \<open>No call of \<open>work\<close> is in progress: none made yet, or the last one has returned.\<close>

definition p_idle :: "p_pc \<Rightarrow> bool" where
  "p_idle pc = (case pc of P_Idle \<Rightarrow> True | P_Done r \<Rightarrow> True | _ \<Rightarrow> False)"

text \<open>
  The scheduler calls \<open>work\<close> with \<open>noutput_items\<close> input items; the first statements
  read the flag and set \<open>num_samples\<close>.
\<close>

definition work_call :: "gr_complex list \<Rightarrow> pipeline \<Rightarrow> pipeline option" where
  "work_call items s =
     (if p_idle (p_pc s)
      then Some (s\<lparr>p_in := items, p_noutput := int (length items),
                    p_running := running s, p_num_samples := int (length items),
                    p_pc := P_Outer\<rparr>)
      else None)"

text \<open>Filling done: the statements under the lock, up to the test of the wait loop.\<close>

definition advance :: "pipeline \<Rightarrow> pipeline" where
  "advance s =
     s\<lparr>buf_index := (buf_index s + 1) mod n_buffers s,
       next_value := buffers s ! ((buf_index s + 1) mod n_buffers s),
       samples_left := n_samples s\<rparr>"

definition wait_for_empty :: "pipeline \<Rightarrow> pipeline" where
  "wait_for_empty s =
     (if filled s ! buf_index s \<and> p_running s then s\<lparr>p_pc := P_Waiting\<rparr>
      else s\<lparr>p_pc := P_Outer\<rparr>)"

definition producer_step :: "pipeline \<Rightarrow> pipeline option" where
  "producer_step s =
     (case p_pc s of
        P_Outer \<Rightarrow>
          if p_running s \<and> p_num_samples s > 0 then Some (s\<lparr>p_pc := P_Inner\<rparr>)
          else Some (s\<lparr>p_pc := P_Done (if p_running s then p_noutput s else 0)\<rparr>)
      | P_Inner \<Rightarrow>
          if samples_left s \<noteq> 0 \<and> p_num_samples s \<noteq> 0 then
            (case p_in s of
               [] \<Rightarrow> None
             | x # xs \<Rightarrow>
                 Some (s\<lparr>mem := write_sample x (next_value s) (mem s),
                         next_value := next_value s + 2,
                         p_in := xs,
                         p_num_samples := p_num_samples s - 1,
                         samples_left := samples_left s - 1\<rparr>))
          else Some (s\<lparr>p_pc := P_Full\<rparr>)
      | P_Full \<Rightarrow>
          if samples_left s = 0 then
            (if lock_held s then None
             else Some (wait_for_empty
                          (notify_samp_avail (advance (set_filled (buf_index s) True s)))))
          else Some (s\<lparr>p_pc := P_Outer\<rparr>)
      | P_Woken \<Rightarrow>
          if lock_held s then None
          else Some (wait_for_empty (s\<lparr>p_running := running s\<rparr>))
      | _ \<Rightarrow> None)"

subsection \<open>The Consumer: \<open>get_next_buffer\<close>\<close>

definition buffer2index :: "nat list \<Rightarrow> nat \<Rightarrow> nat \<Rightarrow> nat option" where
  "buffer2index bufs current num = find (\<lambda>i. current = bufs ! i) [0..<num]"

text \<open>The wait loop's test and what follows it.\<close>

definition next_buffer :: "pipeline \<Rightarrow> pipeline" where
  "next_buffer s =
     (if running s \<and> \<not> filled s ! next_to_tx s then s\<lparr>c_pc := C_Waiting\<rparr>
      else if running s then
        s\<lparr>c_pc := C_Ret (Some (buffers s ! next_to_tx s)),
          next_to_tx := (next_to_tx s + 1) mod n_buffers s\<rparr>
      else s\<lparr>c_pc := C_Ret None\<rparr>)"

definition consumer_step :: "pipeline \<Rightarrow> pipeline option" where
  "consumer_step s =
     (if lock_held s then None
      else case c_pc s of
        C_Call samples \<Rightarrow>
          (case samples of
             None \<Rightarrow> Some (next_buffer s)
           | Some a \<Rightarrow>
               (case buffer2index (buffers s) a (n_buffers s) of
                  None \<Rightarrow> Some (s\<lparr>c_pc := C_Threw\<rparr>)
                | Some i \<Rightarrow>
                    Some (next_buffer (notify_buffer_emptied (set_filled i False s)))))
      | C_Woken \<Rightarrow> Some (next_buffer s)
      | _ \<Rightarrow> None)"

subsection \<open>The transfer engine and \<open>write_task\<close>\<close>

text \<open>
  \<open>bladerf_stream\<close> belongs to libbladeRF. The embedding takes its contract: it invokes
  the callback with the null pointer while fewer than \<open>transfers\<close> buffers are in flight,
  or with the buffer that has been in flight longest, and submits the buffer the
  callback returns; after a null return, or on an error of its own, it returns, and
  \<open>write_task\<close> clears the running flag.
\<close>

definition callback_null :: "pipeline \<Rightarrow> pipeline option" where
  "callback_null s =
     (if c_pc s = C_Idle \<and> length (inflight s) < n_transfers s
      then Some (s\<lparr>c_pc := C_Call None\<rparr>) else None)"

definition callback_done :: "pipeline \<Rightarrow> pipeline option" where
  "callback_done s =
     (if c_pc s = C_Idle then
        (case inflight s of
           [] \<Rightarrow> None
         | a # rest \<Rightarrow> Some (s\<lparr>c_pc := C_Call (Some a), inflight := rest\<rparr>))
      else None)"

definition submit :: "pipeline \<Rightarrow> pipeline option" where
  "submit s =
     (case c_pc s of
        C_Ret (Some b) \<Rightarrow> Some (s\<lparr>inflight := inflight s @ [b], c_pc := C_Idle\<rparr>)
      | _ \<Rightarrow> None)"

definition stream_end :: "pipeline \<Rightarrow> pipeline option" where
  "stream_end s =
     (if c_pc s = C_Idle \<or> c_pc s = C_Ret None
      then Some (s\<lparr>running := False, c_pc := C_Exited\<rparr>) else None)"

text \<open>A wait may also return with no notification.\<close>

definition wake_producer :: "pipeline \<Rightarrow> pipeline option" where
  "wake_producer s = (if p_pc s = P_Waiting then Some (s\<lparr>p_pc := P_Woken\<rparr>) else None)"

definition wake_consumer :: "pipeline \<Rightarrow> pipeline option" where
  "wake_consumer s = (if c_pc s = C_Waiting then Some (s\<lparr>c_pc := C_Woken\<rparr>) else None)"

subsection \<open>The destructor\<close>

text \<open>
  One step per statement of \<open>~bladerf_sink_c\<close>: \<open>set_running(false)\<close>, \<open>lock\<close>, the two
  \<open>notify_all\<close>, \<open>unlock\<close>, \<open>_thread.join()\<close> (which returns once \<open>write_task\<close> has
  ended), \<open>bladerf_enable_module\<close>, \<open>bladerf_deinit_stream\<close>, \<open>bladerf_close\<close> and
  \<open>delete[] _filled\<close>.
\<close>

definition destructor_step :: "pipeline \<Rightarrow> pipeline option" where
  "destructor_step s =
     (case d_pc s of
        D_Idle \<Rightarrow> Some (s\<lparr>running := False, d_pc := D_Stopped\<rparr>)
      | D_Stopped \<Rightarrow> Some (s\<lparr>lock_held := True, d_pc := D_Locked\<rparr>)
      | D_Locked \<Rightarrow> Some ((notify_samp_avail s)\<lparr>d_pc := D_Notified_Samp_Avail\<rparr>)
      | D_Notified_Samp_Avail \<Rightarrow>
          Some ((notify_buffer_emptied s)\<lparr>d_pc := D_Notified_Buffer_Emptied\<rparr>)
      | D_Notified_Buffer_Emptied \<Rightarrow> Some (s\<lparr>lock_held := False, d_pc := D_Unlocked\<rparr>)
      | D_Unlocked \<Rightarrow> if c_pc s = C_Exited then Some (s\<lparr>d_pc := D_Joined\<rparr>) else None
      | D_Joined \<Rightarrow> Some (s\<lparr>d_pc := D_Module_Disabled\<rparr>)
      | D_Module_Disabled \<Rightarrow> Some (s\<lparr>d_pc := D_Stream_Released\<rparr>)
      | D_Stream_Released \<Rightarrow> Some (s\<lparr>d_pc := D_Device_Closed\<rparr>)
      | D_Device_Closed \<Rightarrow> Some (s\<lparr>d_pc := D_Filled_Deleted\<rparr>)
      | D_Filled_Deleted \<Rightarrow> None)"

fun d_rank :: "d_pc \<Rightarrow> nat" where
  "d_rank D_Idle = 0"
| "d_rank D_Stopped = 1"
| "d_rank D_Locked = 2"
| "d_rank D_Notified_Samp_Avail = 3"
| "d_rank D_Notified_Buffer_Emptied = 4"
| "d_rank D_Unlocked = 5"
| "d_rank D_Joined = 6"
| "d_rank D_Module_Disabled = 7"
| "d_rank D_Stream_Released = 8"
| "d_rank D_Device_Closed = 9"
| "d_rank D_Filled_Deleted = 10"

subsection \<open>Interleavings\<close>

datatype action =
    Work "gr_complex list"
  | Producer
  | Callback_Null
  | Callback_Done
  | Consumer
  | Submit
  | Stream_End
  | Wake_Producer
  | Wake_Consumer
  | Destructor

definition step :: "action \<Rightarrow> pipeline \<Rightarrow> pipeline option" where
  "step a s =
     (case a of
        Work items \<Rightarrow> work_call items s
      | Producer \<Rightarrow> producer_step s
      | Callback_Null \<Rightarrow> callback_null s
      | Callback_Done \<Rightarrow> callback_done s
      | Consumer \<Rightarrow> consumer_step s
      | Submit \<Rightarrow> submit s
      | Stream_End \<Rightarrow> stream_end s
      | Wake_Producer \<Rightarrow> wake_producer s
      | Wake_Consumer \<Rightarrow> wake_consumer s
      | Destructor \<Rightarrow> destructor_step s)"

fun run :: "action list \<Rightarrow> pipeline \<Rightarrow> pipeline option" where
  "run [] s = Some s"
| "run (a # as) s = (case step a s of None \<Rightarrow> None | Some s' \<Rightarrow> run as s')"

inductive reach :: "pipeline \<Rightarrow> pipeline \<Rightarrow> bool" for s0 :: pipeline where
  reach_start: "reach s0 s0"
| reach_step: "reach s0 s \<Longrightarrow> step a s = Some s' \<Longrightarrow> reach s0 s'"

text \<open>
  The state the constructor leaves: \<open>N\<close> buffers of \<open>spb\<close> samples at the addresses
  \<open>bufs\<close>, all unfilled, both cursors at slot 0, the flag set, the streaming thread
  launched.
\<close>

definition start_pipeline :: "nat \<Rightarrow> nat \<Rightarrow> nat \<Rightarrow> nat list \<Rightarrow> pipeline" where
  "start_pipeline N spb T bufs =
     \<lparr>running = True, n_buffers = N, n_samples = spb, n_transfers = T,
      buffers = bufs, mem = (\<lambda>a. 0), filled = replicate N False,
      buf_index = 0, next_to_tx = 0, next_value = bufs ! 0, samples_left = spb,
      p_pc = P_Idle, p_running = False, p_num_samples = 0, p_noutput = 0, p_in = [],
      c_pc = C_Idle, inflight = [], d_pc = D_Idle, lock_held = False,
      assignments = []\<rparr>"

definition constructed :: "config_args \<Rightarrow> nat list \<Rightarrow> pipeline" where
  "constructed a bufs =
     start_pipeline (unat (num_buffers (configure a)))
       (unat (samples_per_buffer (configure a))) (unat (transfers (configure a))) bufs"

text \<open>
  What \<open>bladerf_init_stream\<close> provides: \<open>N\<close> buffers of \<open>2 * spb\<close> cells of
  \<open>int16_t\<close> each, at distinct addresses, no two overlapping, and at most \<open>N\<close>
  transfers.
\<close>

definition pool_ok :: "nat \<Rightarrow> nat \<Rightarrow> nat \<Rightarrow> nat list \<Rightarrow> bool" where
  "pool_ok N spb T bufs =
     (0 < N \<and> T \<le> N \<and> length bufs = N \<and> distinct bufs \<and>
      (\<forall>i < N. \<forall>j < N. i \<noteq> j \<longrightarrow>
         bufs ! i + 2 * spb \<le> bufs ! j \<or> bufs ! j + 2 * spb \<le> bufs ! i))"

text \<open>The values assigned to \<open>_filled[i]\<close> so far, oldest first.\<close>

definition slot_history :: "nat \<Rightarrow> pipeline \<Rightarrow> bool list" where
  "slot_history i s = map snd (filter (\<lambda>e. fst e = i) (assignments s))"

subsection \<open>The invariant of the pool\<close>

text \<open>
  The buffers the Consumer has given out and not got back (the one passed to the
  callback, those in flight, the one just returned to the engine) are the slots that
  come last before \<open>next_to_tx\<close>, in order, and all of them are marked filled.
\<close>

definition held_slot :: "nat \<Rightarrow> nat \<Rightarrow> nat \<Rightarrow> nat \<Rightarrow> nat" where
  "held_slot N ntx k j = (ntx + N - k + j) mod N"

definition slots_held :: "nat \<Rightarrow> nat list \<Rightarrow> nat \<Rightarrow> bool list \<Rightarrow> nat list \<Rightarrow> bool" where
  "slots_held N bufs ntx fl h =
     (length h \<le> N \<and>
      (\<forall>j < length h. h ! j = bufs ! held_slot N ntx (length h) j \<and>
                      fl ! held_slot N ntx (length h) j))"

definition alternating :: "bool list \<Rightarrow> bool" where
  "alternating xs = (\<forall>j < length xs. xs ! j = even j)"

definition history_ok :: "nat \<Rightarrow> bool list \<Rightarrow> (nat \<times> bool) list \<Rightarrow> bool" where
  "history_ok N fl lg =
     (\<forall>i < N. alternating (map snd (filter (\<lambda>e. fst e = i) lg)) \<and>
              fl ! i = odd (length (filter (\<lambda>e. fst e = i) lg)))"

definition held :: "pipeline \<Rightarrow> nat list" where
  "held s =
     (case c_pc s of C_Call (Some a) \<Rightarrow> [a] | _ \<Rightarrow> []) @ inflight s @
     (case c_pc s of C_Ret (Some b) \<Rightarrow> [b] | _ \<Rightarrow> [])"

definition pool_inv :: "pipeline \<Rightarrow> bool" where
  "pool_inv s =
     (pool_ok (n_buffers s) (n_samples s) (n_transfers s) (buffers s) \<and>
      length (filled s) = n_buffers s \<and>
      buf_index s < n_buffers s \<and> next_to_tx s < n_buffers s)"

definition producer_inv :: "pipeline \<Rightarrow> bool" where
  "producer_inv s =
     (samples_left s \<le> n_samples s \<and>
      next_value s = buffers s ! buf_index s + 2 * (n_samples s - samples_left s) \<and>
      (p_idle (p_pc s) \<and> running s \<longrightarrow> \<not> filled s ! buf_index s) \<and>
      (p_pc s = P_Outer \<and> p_running s \<longrightarrow> \<not> filled s ! buf_index s) \<and>
      (p_pc s = P_Outer \<and> \<not> p_running s \<longrightarrow> \<not> running s) \<and>
      (p_pc s = P_Inner \<or> p_pc s = P_Full \<longrightarrow>
         p_running s \<and> \<not> filled s ! buf_index s) \<and>
      (\<not> p_idle (p_pc s) \<longrightarrow> p_num_samples s = int (length (p_in s))))"

definition consumer_inv :: "pipeline \<Rightarrow> bool" where
  "consumer_inv s =
     (slots_held (n_buffers s) (buffers s) (next_to_tx s) (filled s) (held s) \<and>
      length (inflight s) +
        (if c_pc s = C_Idle \<or> c_pc s = C_Ret None \<or> c_pc s = C_Threw \<or> c_pc s = C_Exited
         then 0 else 1) \<le> n_transfers s)"

definition history_inv :: "pipeline \<Rightarrow> bool" where
  "history_inv s = history_ok (n_buffers s) (filled s) (assignments s)"

definition pipeline_inv :: "pipeline \<Rightarrow> bool" where
  "pipeline_inv s = (pool_inv s \<and> producer_inv s \<and> consumer_inv s \<and> history_inv s)"

definition pool_of :: "pipeline \<Rightarrow> nat \<times> nat \<times> nat \<times> nat list" where
  "pool_of s = (n_buffers s, n_samples s, n_transfers s, buffers s)"

text \<open>
  The inner loop of \<open>work\<close> run over a list of samples: what it leaves in memory.
\<close>

fun write_samples :: "gr_complex list \<Rightarrow> nat \<Rightarrow> (nat \<Rightarrow> 16 word) \<Rightarrow> (nat \<Rightarrow> 16 word)" where
  "write_samples [] a m = m"
| "write_samples (x # xs) a m = write_samples xs (a + 2) (write_sample x a m)"


text \<open>
  What \<open>work\<close> returns: \<open>noutput_items\<close>, with every input sample consumed, when its
  local \<open>running\<close> is true at the \<open>return\<close>, and 0 when it is false.
\<close>

definition return_inv :: "pipeline \<Rightarrow> bool" where
  "return_inv s =
     (\<forall>r. p_pc s = P_Done r \<longrightarrow>
        (if p_running s then r = p_noutput s \<and> p_num_samples s = 0 else r = 0))"


text \<open>The sample (0.1, -0.2) and small pools for the closed examples.\<close>

definition demo_sample :: gr_complex where
  "demo_sample = \<lparr>sample_real = float_0_1, sample_imag = float_m0_2\<rparr>"

definition demo_pool :: pipeline where
  "demo_pool = start_pipeline 2 1 1 [100, 102]"

text \<open>
  The pool of the configuration \<open>buffers=2,buflen=4096\<close>: two buffers of 1024 samples
  (2048 cells each), one transfer.
\<close>

definition small_args :: config_args where
  "small_args = \<lparr>arg_buffers = Some 2, arg_buflen = Some 4096, arg_transfers = None\<rparr>"

definition small_pool :: pipeline where
  "small_pool = constructed small_args [100, 2148]"

text \<open>
  \<open>demo_pool\<close> with both buffers filled, the first one transmitted and handed back to
  \<open>get_next_buffer\<close>, the Producer waiting for it with one sample left.
\<close>

definition demo_returned :: pipeline where
  "demo_returned =
     \<lparr>running = True, n_buffers = 2, n_samples = 1, n_transfers = 1,
      buffers = [100, 102],
      mem = write_sample demo_sample 102 (write_sample demo_sample 100 (\<lambda>a. 0)),
      filled = [True, True], buf_index = 0, next_to_tx = 1, next_value = 100,
      samples_left = 1, p_pc = P_Waiting, p_running = True, p_num_samples = 1,
      p_noutput = 3, p_in = [demo_sample], c_pc = C_Call (Some 100), inflight = [],
      d_pc = D_Idle, lock_held = False, assignments = [(0, True), (1, True)]\<rparr>"

text \<open>
  The same run continued: the Consumer has taken the first buffer back and handed out the
  second, the Producer has refilled the first, and the second buffer comes back.
\<close>

definition demo_returned_second :: pipeline where
  "demo_returned_second =
     \<lparr>running = True, n_buffers = 2, n_samples = 1, n_transfers = 1,
      buffers = [100, 102],
      mem = write_sample demo_sample 100
              (write_sample demo_sample 102 (write_sample demo_sample 100 (\<lambda>a. 0))),
      filled = [True, True], buf_index = 1, next_to_tx = 0, next_value = 102,
      samples_left = 1, p_pc = P_Waiting, p_running = True, p_num_samples = 0,
      p_noutput = 3, p_in = [], c_pc = C_Call (Some 102), inflight = [],
      d_pc = D_Idle, lock_held = False,
      assignments = [(0, True), (1, True), (0, False), (0, True)]\<rparr>"

text \<open>\<open>demo_pool\<close> with the flag cleared as the streaming thread asks for its first buffer.\<close>

definition demo_stopping :: pipeline where
  "demo_stopping =
     \<lparr>running = False, n_buffers = 2, n_samples = 1, n_transfers = 1,
      buffers = [100, 102], mem = (\<lambda>a. 0), filled = [False, False],
      buf_index = 0, next_to_tx = 0, next_value = 100, samples_left = 1,
      p_pc = P_Idle, p_running = False, p_num_samples = 0, p_noutput = 0, p_in = [],
      c_pc = C_Call None, inflight = [], d_pc = D_Stopped, lock_held = False,
      assignments = []\<rparr>"

text \<open>
  A call of \<open>work\<close> with 2049 samples on \<open>small_pool\<close>, run until it waits: both
  buffers filled (2048 samples consumed), the last sample still to be written.
\<close>

definition fill_both :: "action list" where
  "fill_both =
     [Work (replicate 2049 demo_sample), Producer] @ replicate 1024 Producer @
     [Producer, Producer, Producer] @ replicate 1024 Producer @ [Producer, Producer]"

definition blocked :: pipeline where
  "blocked = \<lparr>running = True, n_buffers = 2, n_samples = 1024, n_transfers = 1,
      buffers = [100, 2148],
      mem = write_samples (replicate 1024 demo_sample) 2148
              (write_samples (replicate 1024 demo_sample) 100 (\<lambda>a. 0)),
      filled = [True, True], buf_index = 0, next_to_tx = 0,
      next_value = 100, samples_left = 1024, p_pc = P_Waiting,
      p_running = True, p_num_samples = 1, p_noutput = 2049,
      p_in = [demo_sample], c_pc = C_Idle, inflight = [], d_pc = D_Idle,
      lock_held = False, assignments = [(0, True), (1, True)]\<rparr>"

section \<open>Stream configuration: theorems\<close>

lemma configure_num_buffers_ge2: "2 \<le> configure_num_buffers nb"
proof (cases "nb \<le> 1")
  case True
  then show ?thesis by (simp add: configure_num_buffers_def NUM_BUFFERS_def)
next
  case False
  then have "1 < nb" by simp
  then have "unat (1 :: size_t) < unat nb" by (simp only: word_less_nat_alt)
  then have "unat (2 :: size_t) \<le> unat nb" by simp
  then have "2 \<le> nb" by (simp only: word_le_nat_alt)
  with False show ?thesis by (simp add: configure_num_buffers_def)
qed

lemma unat_ucast_down_le: "unat (ucast (w :: size_t) :: uint) \<le> unat w"
  by (simp add: unsigned_ucast_eq unsigned_take_bit_eq)

lemma unat_ucast_up_eq: "unat (ucast (w :: uint) :: size_t) = unat w"
proof -
  have "unat w < 2 ^ 32" using unsigned_less [of w] by simp
  then show ?thesis
    by (simp add: unsigned_ucast_eq unsigned_take_bit_eq take_bit_nat_eq_self_iff)
qed

lemma unat_ucast_down_mod:
  "unat (ucast (w :: size_t) :: uint) = unat w mod 2 ^ 32"
  by (simp add: unsigned_ucast_eq unsigned_take_bit_eq take_bit_eq_mod)

lemma ucast_gt_half_iff:
  "((ucast (tr :: uint) :: size_t) > nb div 2) = (unat nb div 2 < unat tr)"
  by (simp add: word_less_nat_alt unat_div unat_ucast_up_eq)

lemma unat_configure_transfers:
  "unat (configure_transfers nb tr) =
     (if unat tr = 0 \<or> unat nb div 2 < unat tr then (unat nb div 2) mod 2 ^ 32
      else unat tr)"
proof -
  have z: "(tr = 0) = (unat tr = 0)" by (simp add: unat_eq_0)
  show ?thesis
    unfolding configure_transfers_def ucast_gt_half_iff z
    by (simp add: unat_ucast_down_mod unat_div)
qed

lemma configure_transfers_le:
  "unat (configure_transfers nb tr) \<le> unat nb div 2"
proof (cases "unat tr = 0 \<or> unat nb div 2 < unat tr")
  case True
  have "(unat nb div 2) mod 2 ^ 32 \<le> unat nb div 2" by (rule mod_less_eq_dividend)
  with True show ?thesis by (simp only: unat_configure_transfers if_True)
next
  case False
  then show ?thesis by (simp add: unat_configure_transfers)
qed

lemma unat_configure_samples_per_buffer:
  "unat (configure_samples_per_buffer spb) =
     (let q = unat spb div 4 in if 1024 \<le> q \<and> q mod 1024 = 0 then q else 4096)"
proof -
  let ?q = "spb div (2 * sizeof_int16)"
  have q: "unat ?q = unat spb div 4"
    by (simp add: sizeof_int16_def unat_div)
  have lt: "(?q < 1024) = (unat spb div 4 < 1024)"
    by (simp add: word_less_nat_alt q)
  have md: "(?q mod 1024 = 0) = ((unat spb div 4) mod 1024 = 0)"
  proof -
    have "(?q mod 1024 = 0) = (unat (?q mod 1024) = 0)" by (simp add: unat_eq_0)
    also have "\<dots> = ((unat spb div 4) mod 1024 = 0)"
      by (simp add: unat_mod q)
    finally show ?thesis .
  qed
  show ?thesis
  proof (cases "spb = 0")
    case True
    then show ?thesis
      by (simp add: configure_samples_per_buffer_def NUM_SAMPLES_PER_BUFFER_def)
  next
    case False
    then have "configure_samples_per_buffer spb =
        (if ?q < 1024 \<or> ?q mod 1024 \<noteq> 0 then NUM_SAMPLES_PER_BUFFER else ?q)"
      by (simp add: configure_samples_per_buffer_def Let_def)
    then show ?thesis
      unfolding lt md
      by (auto simp: Let_def q NUM_SAMPLES_PER_BUFFER_def)
  qed
qed

text \<open>
  The bound itself holds for every value of the keys: the transfer count passed to
  \<open>bladerf_init_stream\<close> is at most half the buffer count.
\<close>

lemma transfers_le_half_buffers:
  "unat (transfers (configure a)) \<le> unat (num_buffers (configure a)) div 2"
proof -
  let ?nb = "configure_num_buffers (key_value (arg_buffers a))"
  let ?tr = "ucast (key_value (arg_transfers a)) :: uint"
  have nb: "num_buffers (configure a) = ?nb"
    by (simp add: configure_def Let_def)
  have tr: "transfers (configure a) = configure_transfers ?nb ?tr"
    by (simp add: configure_def Let_def)
  show ?thesis
    unfolding nb tr by (rule configure_transfers_le)
qed

text \<open>
  C2. The constructor at \<open>buffers=8589934592\<close> (\<open>2^33\<close>) with no \<open>transfers\<close> key:
  the guard \<open>transfers == 0\<close> fires and \<open>transfers = _num_buffers / 2\<close> assigns
  \<open>2^32\<close> to an \<open>unsigned int\<close>, which holds 0 afterwards, the unset value the guard
  was to replace; half the buffer count is 4294967296. The same narrowing is in
  \<open>transfers = lexical_cast<size_t>(...)\<close>: with 32 buffers, \<open>transfers=4294967299\<close>
  (\<open>2^32 + 3\<close>) is above half the buffer count and is kept as 3, not replaced by 16.
\<close>

theorem transfers_narrowed_at_failing_input:
  "unat (transfers (configure \<lparr>arg_buffers = Some 8589934592, arg_buflen = None,
                                 arg_transfers = None\<rparr>)) = 0 \<and>
   unat (num_buffers (configure \<lparr>arg_buffers = Some 8589934592, arg_buflen = None,
                                   arg_transfers = None\<rparr>)) div 2 = 4294967296 \<and>
   unat (transfers (configure \<lparr>arg_buffers = Some 32, arg_buflen = None,
                                 arg_transfers = Some 4294967299\<rparr>)) = 3 \<and>
   unat (num_buffers (configure \<lparr>arg_buffers = Some 32, arg_buflen = None,
                                   arg_transfers = Some 4294967299\<rparr>)) div 2 = 16"
  by (simp add: configure_def key_value_def configure_num_buffers_def
      configure_transfers_def NUM_BUFFERS_def Let_def word_le_nat_alt word_less_nat_alt)

text \<open>
  C5 (amended). The pool size in effect after construction is at least 2: a value
  \<open>\<le> 1\<close> of the \<open>buffers\<close> key (or no key) gives the default 32, and every value
  \<open>\<ge> 2\<close> is accepted as it is, odd or even.
\<close>

theorem num_buffers_at_least_two:
  "2 \<le> unat (num_buffers (configure a)) \<and>
   num_buffers (configure a) =
     (if unat (key_value (arg_buffers a)) \<le> 1 then 32 else key_value (arg_buffers a))"
proof -
  let ?v = "key_value (arg_buffers a)"
  have nb: "num_buffers (configure a) = configure_num_buffers ?v"
    by (simp add: configure_def Let_def)
  have "(2 :: size_t) \<le> configure_num_buffers ?v" by (rule configure_num_buffers_ge2)
  then have "unat (2 :: size_t) \<le> unat (configure_num_buffers ?v)"
    by (simp only: word_le_nat_alt)
  then have ge: "2 \<le> unat (configure_num_buffers ?v)" by simp
  have c: "(?v \<le> 1) = (unat ?v \<le> 1)" by (simp add: word_le_nat_alt)
  show ?thesis
    unfolding nb using ge by (simp add: configure_num_buffers_def c NUM_BUFFERS_def)
qed

text \<open>
  C5 (counterexample). \<open>buffers = 3\<close> is accepted: the pool has 3 slots, an odd number.
\<close>

theorem num_buffers_odd_counterexample:
  "\<not> even (unat (num_buffers (configure \<lparr>arg_buffers = Some 3, arg_buflen = None,
                                             arg_transfers = None\<rparr>)))"
  by (simp add: configure_def key_value_def configure_num_buffers_def Let_def
      word_le_nat_alt)

text \<open>
  C8. For every value \<open>v\<close> of the \<open>buflen\<close> key (a byte length), the effective
  \<open>samples_per_buffer\<close> is \<open>v / 4\<close> (4 is \<open>2 * sizeof(int16_t)\<close>; the division drops
  the remainder) when that quotient is at least 1024 and a multiple of 1024, and the
  default 4096 in every other case; with no \<open>buflen\<close> key it is 4096.
\<close>

theorem samples_per_buffer_effective:
  "samples_per_buffer (configure a) =
     (case arg_buflen a of
        None \<Rightarrow> 4096
      | Some v \<Rightarrow> if 1024 \<le> v div 4 \<and> (v div 4) mod 1024 = 0 then v div 4 else 4096)"
proof -
  have spb: "samples_per_buffer (configure a) =
      configure_samples_per_buffer (key_value (arg_buflen a))"
    by (simp add: configure_def Let_def)
  have z: "\<not> (1024 :: size_t) \<le> 0" by (simp add: word_le_nat_alt)
  show ?thesis
  proof (cases "arg_buflen a")
    case None
    then show ?thesis
      unfolding spb
      by (simp add: key_value_def configure_samples_per_buffer_def NUM_SAMPLES_PER_BUFFER_def)
  next
    case (Some v)
    show ?thesis
    proof (cases "v = 0")
      case True
      with Some show ?thesis
        unfolding spb
        by (simp add: key_value_def configure_samples_per_buffer_def
            NUM_SAMPLES_PER_BUFFER_def z)
    next
      case False
      with Some show ?thesis
        unfolding spb
        by (auto simp: key_value_def configure_samples_per_buffer_def
            NUM_SAMPLES_PER_BUFFER_def sizeof_int16_def Let_def not_le)
    qed
  qed
qed

theorem samples_per_buffer_effective_witness:
  "samples_per_buffer (configure \<lparr>arg_buffers = None, arg_buflen = Some 8192,
                                      arg_transfers = None\<rparr>) = 2048 \<and>
   samples_per_buffer (configure \<lparr>arg_buffers = None, arg_buflen = Some 4096,
                                      arg_transfers = None\<rparr>) = 1024 \<and>
   samples_per_buffer (configure \<lparr>arg_buffers = None, arg_buflen = Some 4099,
                                      arg_transfers = None\<rparr>) = 1024 \<and>
   samples_per_buffer (configure \<lparr>arg_buffers = None, arg_buflen = Some 4095,
                                      arg_transfers = None\<rparr>) = 4096 \<and>
   samples_per_buffer (configure \<lparr>arg_buffers = None, arg_buflen = Some 6144,
                                      arg_transfers = None\<rparr>) = 4096 \<and>
   samples_per_buffer (configure \<lparr>arg_buffers = None, arg_buflen = Some 0,
                                      arg_transfers = None\<rparr>) = 4096 \<and>
   samples_per_buffer (configure \<lparr>arg_buffers = None, arg_buflen = None,
                                      arg_transfers = None\<rparr>) = 4096"
proof -
  note t = samples_per_buffer_effective
  have c: "(1024 :: size_t) \<le> 2048" "(1024 :: size_t) \<le> 1024" "\<not> (1024 :: size_t) \<le> 1023"
    "(1024 :: size_t) \<le> 1536" "\<not> (1024 :: size_t) \<le> 0"
    by (simp_all add: word_le_nat_alt)
  have d: "(8192 :: size_t) div 4 = 2048" "(4096 :: size_t) div 4 = 1024"
    "(4099 :: size_t) div 4 = 1024" "(4095 :: size_t) div 4 = 1023"
    "(6144 :: size_t) div 4 = 1536" "(2048 :: size_t) mod 1024 = 0"
    "(1024 :: size_t) mod 1024 = 0" "(1536 :: size_t) mod 1024 = 512"
    by (simp_all add: word_div_def word_mod_def)
  show ?thesis
    by (simp add: t c d)
qed

section \<open>The sample converter: theorems\<close>

lemma bit_length_zero: "bit_length 0 = 0"
  by (simp add: bit_length.simps)

lemma bit_length_pos: "0 < n \<Longrightarrow> bit_length n = Suc (bit_length (n div 2))"
  by (subst bit_length.simps) simp



subsection \<open>Rounding to nearest, ties to even, on integers\<close>




subsection \<open>\<open>float32_round\<close> rounds to the nearest binary32 value\<close>






subsection \<open>The cast and the two stores\<close>

lemma trunc_of_int: "trunc_toward_zero (of_int k) = k"
  by (simp add: trunc_toward_zero_def)

lemma float_trunc_eq: "float_trunc m e = trunc_toward_zero (of_int m * 2 powi e)"
proof (cases "0 \<le> e")
  case True
  then have "(2::real) powi e = of_int (2 ^ nat e)"
    by (simp add: power_int_def)
  then have v: "(of_int m :: real) * 2 powi e = of_int (m * 2 ^ nat e)" by simp
  have "float_trunc m e = m * 2 ^ nat e"
    using True by (simp add: float_trunc_def)
  then show ?thesis unfolding v by (simp only: trunc_of_int)
next
  case False
  let ?d = "2 ^ nat (- e) :: int"
  have p: "(2::real) powi e = 1 / of_int ?d"
    using False by (simp add: power_int_def field_simps)
  have v: "(of_int m :: real) * 2 powi e = of_int m / of_int ?d"
    by (simp add: p)
  show ?thesis
  proof (cases "0 \<le> m")
    case True
    then have "0 \<le> (of_int m :: real) * 2 powi e" unfolding v by simp
    then have "trunc_toward_zero (of_int m * 2 powi e) = \<lfloor>of_int m / of_int ?d :: real\<rfloor>"
      unfolding trunc_toward_zero_def v by simp
    also have "\<dots> = m div ?d" by (rule floor_divide_of_int_eq)
    finally show ?thesis using False True
      by (cases "m = 0") (simp_all add: float_trunc_def)
  next
    case neg: False
    then have "(of_int m :: real) * 2 powi e < 0" unfolding v
      by (simp add: divide_neg_pos)
    then have "trunc_toward_zero (of_int m * 2 powi e) = \<lceil>of_int m / of_int ?d :: real\<rceil>"
      unfolding trunc_toward_zero_def v by simp
    also have "\<dots> = - \<lfloor>- (of_int m / of_int ?d :: real)\<rfloor>"
      by (simp only: ceiling_def)
    also have "- (of_int m / of_int ?d :: real) = of_int (- m) / of_int ?d"
      by simp
    also have "\<lfloor>of_int (- m) / of_int ?d :: real\<rfloor> = (- m) div ?d"
      by (rule floor_divide_of_int_eq)
    finally show ?thesis using False neg
      by (simp add: float_trunc_def)
  qed
qed













lemma float32_value_trunc:
  "trunc_toward_zero (float32_value (Float32 m e)) = float_trunc m e"
  by (simp add: float32_value_def float_trunc_eq)

text \<open>
  Outside the range of \<open>int16_t\<close>, where C++ defines nothing, the embedding follows the
  x86-64 build: 20.0f gives the product 40000, stored as its low 16 bits; 1075200.0f gives
  a product that is no 32-bit \<open>int\<close>, stored as 0; so does a NaN.
\<close>

lemma scale_component_out_of_range:
  "sint (scale_component (Float32 5 2)) = - 25536"
  "scale_component (Float32 525 11) = 0"
  "scale_component NaN = 0"
  by (simp_all add: scale_component_def SCALE_def float32_round_def float_to_int16_def
      float_to_int_def float_trunc_def INT_MIN_def bit_length_pos bit_length_zero Let_def)

text \<open>The largest finite float times 2000 is an infinity, stored as 0.\<close>

lemma scale_component_overflow:
  "float32_mul (Float32 16777215 104) SCALE = Infinity False"
  "scale_component (Float32 16777215 104) = 0"
  by (simp_all add: scale_component_def SCALE_def float32_round_def float_to_int16_def
      float_to_int_def INT_MIN_def bit_length_pos bit_length_zero Let_def)




section \<open>Device control: theorems\<close>

lemma get_center_freq_eq:
  "bladerf_get_frequency api (dev s) = (ret, cur, d') \<Longrightarrow>
   get_center_freq api chan s =
     (if ret \<noteq> 0 then Inl (GetCenterFreqFailed ret) else Inr (real (unat cur)),
      s\<lparr>dev := d', calls := calls s @ [GetFrequency]\<rparr>)"
  by (simp add: get_center_freq_def Let_def)

text \<open>
  C9 (amended). For a requested centre frequency outside the valid range,
  \<open>set_center_freq\<close> writes one line to the diagnostic output and never calls
  \<open>bladerf_set_frequency\<close>: its only device call is the read-back
  \<open>bladerf_get_frequency\<close>. When the read-back succeeds the call returns the frequency
  read; when the read-back fails the call raises the error of \<open>get_center_freq\<close>.
\<close>

theorem set_center_freq_out_of_range:
  assumes "freq < freq_start rng \<or> freq > freq_stop rng"
    and "bladerf_get_frequency api (dev s) = (ret, cur, d')"
  shows "set_center_freq api rng freq chan s =
           (if ret \<noteq> 0 then Inl (GetCenterFreqFailed ret) else Inr (real (unat cur)),
            s\<lparr>dev := d', calls := calls s @ [GetFrequency],
                cerr := cerr s @ [''Failed to set out of bound frequency'']\<rparr>)"
proof -
  let ?s = "s\<lparr>cerr := cerr s @ [''Failed to set out of bound frequency'']\<rparr>"
  have "set_center_freq api rng freq chan s = get_center_freq api chan ?s"
    using assms(1) by (simp add: set_center_freq_def)
  moreover have "bladerf_get_frequency api (dev ?s) = (ret, cur, d')"
    using assms(2) by simp
  ultimately show ?thesis
    by (simp add: get_center_freq_eq)
qed

theorem set_center_freq_out_of_range_witness:
  "set_center_freq (register_device 0) bladerf_freq_range 100 0 fresh_sink =
     (Inr 433000000,
      fresh_sink\<lparr>calls := [GetFrequency],
                   cerr := [''Failed to set out of bound frequency'']\<rparr>)"
proof -
  have r: "(100 :: real) < freq_start bladerf_freq_range \<or>
           100 > freq_stop bladerf_freq_range"
    by (simp add: bladerf_freq_range_def)
  have g: "bladerf_get_frequency (register_device 0) (dev fresh_sink) =
           (0, 433000000, (433000000, -14, 0))"
    by (simp add: register_device_def fresh_sink_def)
  show ?thesis
    using set_center_freq_out_of_range [OF r g, of 0]
    by (simp add: fresh_sink_def)
qed

text \<open>
  C9 (counterexample). A request of 100 Hz, below the range, on a device whose frequency
  read fails with status -1: the call ends in a hard failure.
\<close>

theorem set_center_freq_raises_counterexample:
  "fst (set_center_freq (register_device (-1)) bladerf_freq_range 100 0 fresh_sink) =
     Inl (GetCenterFreqFailed (-1))"
  by (simp add: set_center_freq_def get_center_freq_def register_device_def
      fresh_sink_def bladerf_freq_range_def Let_def)

lemma calls_get_gain_valid:
  "name = ''VGA1'' \<or> name = ''VGA2'' \<Longrightarrow>
   calls (snd (get_gain api name chan s)) =
     calls s @ [if name = ''VGA1'' then GetTxVga1 else GetTxVga2]"
  by (auto simp: get_gain_def Let_def split: prod.splits)

lemma get_gain_valid_error:
  "name = ''VGA1'' \<or> name = ''VGA2'' \<Longrightarrow>
   fst (get_gain api name chan s) \<noteq> Inl (GetUnknownGainElement nm)"
  by (auto simp: get_gain_def Let_def split: prod.splits)

lemma calls_set_gain_valid:
  "name = ''VGA1'' \<or> name = ''VGA2'' \<Longrightarrow>
   take (Suc (length (calls s))) (calls (snd (set_gain api gain name chan s))) =
     calls s @ [if name = ''VGA1'' then SetTxVga1 (double_to_int gain)
                else SetTxVga2 (double_to_int gain)]"
  by (auto simp: set_gain_def Let_def calls_get_gain_valid split: prod.splits)

lemma double_to_int_in_range:
  "- 2147483648 \<le> trunc_toward_zero x \<Longrightarrow> trunc_toward_zero x \<le> 2147483647 \<Longrightarrow>
   sint (double_to_int x) = trunc_toward_zero x"
  by (simp add: double_to_int_def Let_def signed_of_int signed_take_bit_int_eq_self)

lemma set_gain_valid_error:
  "name = ''VGA1'' \<or> name = ''VGA2'' \<Longrightarrow>
   fst (set_gain api gain name chan s) \<noteq> Inl (SetUnknownGainElement nm)"
  by (auto simp: set_gain_def get_gain_def Let_def split: prod.splits)

text \<open>
  A gain of 3e9 is no \<open>int\<close>: the embedding passes \<open>INT_MIN\<close> to the device, as the
  x86-64 build does.
\<close>

lemma double_to_int_out_of_range: "sint (double_to_int 3000000000) = - 2147483648"
  by (simp add: double_to_int_def trunc_toward_zero_def INT_MIN_def Let_def)

text \<open>
  C10 (amended). For a gain-element name other than "VGA1" and "VGA2", each of
  \<open>set_gain\<close>, \<open>get_gain\<close> and \<open>get_gain_range\<close> raises an error and leaves the sink
  as it was, with no device call. For the names "VGA1" and "VGA2", \<open>set_gain\<close> and
  \<open>get_gain\<close> never fail on account of the name and reach the device call of the stage
  named (for \<open>set_gain\<close> the write of that stage, whose argument is the gain with its
  fraction dropped whenever that is an \<open>int\<close>); \<open>get_gain_range\<close> returns the stored
  range of the stage, and issues no device call for any name.
\<close>

theorem gain_element_names:
  "(name \<noteq> ''VGA1'' \<and> name \<noteq> ''VGA2'' \<longrightarrow>
      set_gain api gain name chan s = (Inl (SetUnknownGainElement name), s) \<and>
      get_gain api name chan s = (Inl (GetUnknownGainElement name), s) \<and>
      get_gain_range name chan s = (Inl (InvalidGainElement name), s)) \<and>
   (name = ''VGA1'' \<or> name = ''VGA2'' \<longrightarrow>
      (\<exists>g. take (Suc (length (calls s))) (calls (snd (set_gain api gain name chan s))) =
             calls s @ [if name = ''VGA1'' then SetTxVga1 g else SetTxVga2 g] \<and>
           (- 2147483648 \<le> trunc_toward_zero gain \<and> trunc_toward_zero gain \<le> 2147483647 \<longrightarrow>
              sint g = trunc_toward_zero gain)) \<and>
      fst (set_gain api gain name chan s) \<noteq> Inl (SetUnknownGainElement name) \<and>
      calls (snd (get_gain api name chan s)) =
        calls s @ [if name = ''VGA1'' then GetTxVga1 else GetTxVga2] \<and>
      fst (get_gain api name chan s) \<noteq> Inl (GetUnknownGainElement name) \<and>
      get_gain_range name chan s =
        (Inr (if name = ''VGA1'' then vga1_range s else vga2_range s), s))"
proof (intro conjI impI)
  assume bad: "name \<noteq> ''VGA1'' \<and> name \<noteq> ''VGA2''"
  show "set_gain api gain name chan s = (Inl (SetUnknownGainElement name), s)"
    using bad by (simp add: set_gain_def)
  show "get_gain api name chan s = (Inl (GetUnknownGainElement name), s)"
    using bad by (simp add: get_gain_def)
  show "get_gain_range name chan s = (Inl (InvalidGainElement name), s)"
    using bad by (simp add: get_gain_range_def)
next
  assume ok: "name = ''VGA1'' \<or> name = ''VGA2''"
  have "take (Suc (length (calls s))) (calls (snd (set_gain api gain name chan s))) =
        calls s @ [if name = ''VGA1'' then SetTxVga1 (double_to_int gain)
                   else SetTxVga2 (double_to_int gain)]"
    using ok by (rule calls_set_gain_valid)
  moreover have "- 2147483648 \<le> trunc_toward_zero gain \<and> trunc_toward_zero gain \<le> 2147483647 \<longrightarrow>
      sint (double_to_int gain) = trunc_toward_zero gain"
    by (simp add: double_to_int_in_range)
  ultimately show "\<exists>g. take (Suc (length (calls s))) (calls (snd (set_gain api gain name chan s))) =
             calls s @ [if name = ''VGA1'' then SetTxVga1 g else SetTxVga2 g] \<and>
           (- 2147483648 \<le> trunc_toward_zero gain \<and> trunc_toward_zero gain \<le> 2147483647 \<longrightarrow>
              sint g = trunc_toward_zero gain)"
    by blast
  show "fst (set_gain api gain name chan s) \<noteq> Inl (SetUnknownGainElement name)"
    using ok by (rule set_gain_valid_error)
  show "calls (snd (get_gain api name chan s)) =
        calls s @ [if name = ''VGA1'' then GetTxVga1 else GetTxVga2]"
    using ok by (rule calls_get_gain_valid)
  show "fst (get_gain api name chan s) \<noteq> Inl (GetUnknownGainElement name)"
    using ok by (rule get_gain_valid_error)
  show "get_gain_range name chan s =
        (Inr (if name = ''VGA1'' then vga1_range s else vga2_range s), s)"
    using ok by (auto simp: get_gain_range_def)
qed

theorem gain_element_names_witness:
  "set_gain (register_device 0) 7 ''LNA'' 0 fresh_sink =
     (Inl (SetUnknownGainElement ''LNA''), fresh_sink) \<and>
   get_gain (register_device 0) ''LNA'' 0 fresh_sink =
     (Inl (GetUnknownGainElement ''LNA''), fresh_sink) \<and>
   get_gain_range ''LNA'' 0 fresh_sink = (Inl (InvalidGainElement ''LNA''), fresh_sink) \<and>
   (\<exists>g. take 1 (calls (snd (set_gain (register_device 0) (15 / 2) ''VGA2'' 0 fresh_sink))) =
          [SetTxVga2 g] \<and> sint g = 7) \<and>
   calls (snd (set_gain (register_device 0) (15 / 2) ''VGA2'' 0 fresh_sink)) =
     [SetTxVga2 7, GetTxVga2] \<and>
   fst (set_gain (register_device 0) (15 / 2) ''VGA2'' 0 fresh_sink) = Inr 7 \<and>
   calls (snd (get_gain (register_device 0) ''VGA1'' 0 fresh_sink)) = [GetTxVga1] \<and>
   get_gain_range ''VGA1'' 0 fresh_sink =
     (Inr \<lparr>range_start = -35, range_stop = -4, range_step = 1\<rparr>, fresh_sink)"
proof -
  have bad: "''LNA'' \<noteq> ''VGA1'' \<and> ''LNA'' \<noteq> ''VGA2''" by simp
  have one: "''VGA1'' = ''VGA1'' \<or> ''VGA1'' = ''VGA2''" by simp
  have two: "''VGA2'' = ''VGA1'' \<or> ''VGA2'' = ''VGA2''" by simp
  have tr: "trunc_toward_zero (15 / 2) = 7"
    by (simp add: trunc_toward_zero_def)
  note t = gain_element_names [of _ "register_device 0" _ 0 fresh_sink]
  have a: "set_gain (register_device 0) 7 ''LNA'' 0 fresh_sink =
             (Inl (SetUnknownGainElement ''LNA''), fresh_sink) \<and>
           get_gain (register_device 0) ''LNA'' 0 fresh_sink =
             (Inl (GetUnknownGainElement ''LNA''), fresh_sink) \<and>
           get_gain_range ''LNA'' 0 fresh_sink =
             (Inl (InvalidGainElement ''LNA''), fresh_sink)"
    using t [of "''LNA''" 7] bad by blast
  have b: "calls (snd (get_gain (register_device 0) ''VGA1'' 0 fresh_sink)) =
             calls fresh_sink @ [GetTxVga1] \<and>
           get_gain_range ''VGA1'' 0 fresh_sink = (Inr (vga1_range fresh_sink), fresh_sink)"
    using t [of "''VGA1''" 7] one by simp
  have e: "\<exists>g. take 1 (calls (snd (set_gain (register_device 0) (15 / 2) ''VGA2'' 0 fresh_sink))) =
          [SetTxVga2 g] \<and> sint g = 7"
    using t [of "''VGA2''" "15 / 2"] two by (simp add: tr fresh_sink_def)
  have c: "calls (snd (set_gain (register_device 0) (15 / 2) ''VGA2'' 0 fresh_sink)) =
             [SetTxVga2 7, GetTxVga2]"
    by (simp add: set_gain_def get_gain_def register_device_def fresh_sink_def
        double_to_int_def tr Let_def)
  have d: "fst (set_gain (register_device 0) (15 / 2) ''VGA2'' 0 fresh_sink) = Inr 7"
    by (simp add: set_gain_def get_gain_def register_device_def fresh_sink_def
        double_to_int_def tr Let_def)
  show ?thesis
    using a b c d e by (simp add: fresh_sink_def)
qed

text \<open>
  C10 (counterexample). \<open>get_gain_range\<close> reaches no device call for the name "VGA1":
  on a sink that has issued no call it returns the range with the call record still
  empty and the device untouched.
\<close>

theorem get_gain_range_no_device_call_counterexample:
  "calls (snd (get_gain_range ''VGA1'' 0 fresh_sink)) = [] \<and>
   dev (snd (get_gain_range ''VGA1'' 0 fresh_sink)) = dev fresh_sink \<and>
   fst (get_gain_range ''VGA1'' 0 fresh_sink) =
     Inr \<lparr>range_start = -35, range_stop = -4, range_step = 1\<rparr>"
  by (simp add: get_gain_range_def fresh_sink_def)

section \<open>The streaming pipeline: the invariant\<close>

lemma mod_shift_ne:
  fixes x :: nat
  assumes "0 < j" "j < N"
  shows "(x + j) mod N \<noteq> x mod N"
proof
  assume "(x + j) mod N = x mod N"
  then have "N dvd (x + j) - x"
    by (simp add: mod_eq_dvd_iff_nat)
  then have "N dvd j" by simp
  then have "N \<le> j" using assms(1) by (rule dvd_imp_le)
  with assms(2) show False by simp
qed

lemma held_slot_lt: "0 < N \<Longrightarrow> held_slot N ntx k j < N"
  by (simp add: held_slot_def)

lemma held_slot_Suc: "Suc k \<le> N \<Longrightarrow> held_slot N ntx (Suc k) (Suc j) = held_slot N ntx k j"
proof -
  assume "Suc k \<le> N"
  then have "ntx + N - Suc k + Suc j = ntx + N - k + j" by simp
  then show ?thesis by (simp only: held_slot_def)
qed

lemma held_slot_ne:
  assumes "Suc j < N"
  shows "held_slot N ntx k (Suc j) \<noteq> held_slot N ntx k 0"
proof -
  have "(ntx + N - k + Suc j) mod N \<noteq> (ntx + N - k) mod N"
    using assms by (intro mod_shift_ne) simp_all
  then show ?thesis by (simp add: held_slot_def)
qed

lemma held_slot_shift:
  assumes "k < N"
  shows "held_slot N ((ntx + 1) mod N) (Suc k) j = held_slot N ntx k j"
proof -
  have "(ntx + 1) mod N + N - Suc k + j = (ntx + 1) mod N + (N - Suc k + j)"
    using assms by simp
  then have "((ntx + 1) mod N + N - Suc k + j) mod N = ((ntx + 1) + (N - Suc k + j)) mod N"
    by (simp only: mod_add_left_eq)
  also have "(ntx + 1) + (N - Suc k + j) = ntx + N - k + j"
    using assms by simp
  finally show ?thesis by (simp only: held_slot_def)
qed

lemma held_slot_last:
  assumes "k < N" "ntx < N"
  shows "held_slot N ntx k k = ntx"
proof -
  have "ntx + N - k + k = ntx + N" using assms by simp
  then have "held_slot N ntx k k = (ntx + N) mod N" by (simp only: held_slot_def)
  then show ?thesis using assms by simp
qed

lemma slots_held_mark:
  assumes "slots_held N bufs ntx fl h"
  shows "slots_held N bufs ntx (fl[i := True]) h"
proof -
  have "fl ! k \<Longrightarrow> fl[i := True] ! k" for k
    by (cases "i < length fl") (simp_all add: nth_list_update list_update_beyond)
  with assms show ?thesis unfolding slots_held_def by blast
qed

lemma find_index_distinct:
  assumes "distinct bufs" "i < length bufs" "length bufs = N"
  shows "find (\<lambda>k. bufs ! i = bufs ! k) [0..<N] = Some i"
proof -
  have "\<exists>k. find (\<lambda>k. bufs ! i = bufs ! k) [0..<N] = Some k"
    using assms by (cases "find (\<lambda>k. bufs ! i = bufs ! k) [0..<N]") (auto simp: find_None_iff)
  then obtain k where k: "find (\<lambda>k. bufs ! i = bufs ! k) [0..<N] = Some k" by blast
  then have "bufs ! i = bufs ! k \<and> k < N"
    by (auto simp: find_Some_iff)
  then have "k = i" using assms by (metis nth_eq_iff_index_eq)
  with k show ?thesis by simp
qed

lemma slots_held_release:
  assumes h: "slots_held N bufs ntx fl (a # h)"
    and N: "0 < N" "length fl = N" "length bufs = N" "distinct bufs"
  shows "buffer2index bufs a N = Some (held_slot N ntx (Suc (length h)) 0)"
    and "fl ! held_slot N ntx (Suc (length h)) 0"
    and "slots_held N bufs ntx (fl[held_slot N ntx (Suc (length h)) 0 := False]) h"
proof -
  let ?i = "held_slot N ntx (Suc (length h)) 0"
  have len: "Suc (length h) \<le> N" using h by (simp add: slots_held_def)
  have i: "?i < N" using N by (simp add: held_slot_lt)
  from h have "(a # h) ! 0 = bufs ! held_slot N ntx (length (a # h)) 0 \<and>
      fl ! held_slot N ntx (length (a # h)) 0"
    unfolding slots_held_def by blast
  then have a: "a = bufs ! ?i" and f: "fl ! ?i" by simp_all
  show "buffer2index bufs a N = Some ?i"
    unfolding buffer2index_def a using find_index_distinct [of bufs ?i N] N i by simp
  show "fl ! ?i" by (rule f)
  show "slots_held N bufs ntx (fl[?i := False]) h"
    unfolding slots_held_def
  proof (intro conjI allI impI)
    show "length h \<le> N" using len by simp
  next
    fix j assume j: "j < length h"
    then have "Suc j < length (a # h)" by simp
    with h have "(a # h) ! Suc j = bufs ! held_slot N ntx (length (a # h)) (Suc j) \<and>
        fl ! held_slot N ntx (length (a # h)) (Suc j)"
      unfolding slots_held_def by blast
    then have b: "h ! j = bufs ! held_slot N ntx (length h) j"
      and fj: "fl ! held_slot N ntx (length h) j"
      using held_slot_Suc [OF len, of ntx j] by simp_all
    show "h ! j = bufs ! held_slot N ntx (length h) j" by (rule b)
    have "Suc j < N" using j len by simp
    then have "held_slot N ntx (Suc (length h)) (Suc j) \<noteq> ?i"
      by (rule held_slot_ne)
    then have "held_slot N ntx (length h) j \<noteq> ?i"
      using held_slot_Suc [OF len, of ntx j] by simp
    then show "fl[?i := False] ! held_slot N ntx (length h) j"
      using fj by (simp add: nth_list_update_neq)
  qed
qed

lemma slots_held_hand_out:
  assumes h: "slots_held N bufs ntx fl h"
    and len: "length h < N" and f: "fl ! ntx" and n: "ntx < N"
  shows "slots_held N bufs ((ntx + 1) mod N) fl (h @ [bufs ! ntx])"
proof -
  let ?h = "h @ [bufs ! ntx]"
  have "?h ! j = bufs ! held_slot N ((ntx + 1) mod N) (length ?h) j \<and>
        fl ! held_slot N ((ntx + 1) mod N) (length ?h) j"
    if j: "j < length ?h" for j
  proof -
    have s: "held_slot N ((ntx + 1) mod N) (length ?h) j = held_slot N ntx (length h) j"
      using held_slot_shift [OF len, of ntx j] by simp
    show ?thesis
    proof (cases "j < length h")
      case True
      with h have "h ! j = bufs ! held_slot N ntx (length h) j \<and>
          fl ! held_slot N ntx (length h) j"
        unfolding slots_held_def by blast
      with True show ?thesis unfolding s by (simp add: nth_append)
    next
      case False
      with j have jl: "j = length h" by simp
      have "held_slot N ntx (length h) j = ntx"
        unfolding jl using len n by (rule held_slot_last)
      then show ?thesis unfolding s using jl f by (simp add: nth_append)
    qed
  qed
  moreover have "length ?h \<le> N" using len by simp
  ultimately show ?thesis unfolding slots_held_def by blast
qed

lemma alternating_snoc:
  "alternating xs \<Longrightarrow> b = even (length xs) \<Longrightarrow> alternating (xs @ [b])"
  by (auto simp: alternating_def nth_append less_Suc_eq)

lemma history_ok_assign:
  assumes h: "history_ok N fl lg" and i: "i < N" "length fl = N" and f: "fl ! i = (\<not> b)"
  shows "history_ok N (fl[i := b]) (lg @ [(i, b)])"
  unfolding history_ok_def
proof (intro allI impI)
  fix k assume k: "k < N"
  from h k have a: "alternating (map snd (filter (\<lambda>e. fst e = k) lg))"
    and c: "fl ! k = odd (length (filter (\<lambda>e. fst e = k) lg))"
    unfolding history_ok_def by blast+
  show "alternating (map snd (filter (\<lambda>e. fst e = k) (lg @ [(i, b)]))) \<and>
        fl[i := b] ! k = odd (length (filter (\<lambda>e. fst e = k) (lg @ [(i, b)])))"
  proof (cases "k = i")
    case True
    have "b = even (length (map snd (filter (\<lambda>e. fst e = k) lg)))"
      using c f True by auto
    then have "alternating (map snd (filter (\<lambda>e. fst e = k) lg) @ [b])"
      using a by (rule alternating_snoc [rotated])
    then show ?thesis using True c f i by auto
  next
    case False
    then show ?thesis using a c by (simp add: nth_list_update)
  qed
qed

lemma p_idle_simps [simp]:
  "p_idle P_Idle" "p_idle (P_Done r)" "\<not> p_idle P_Outer" "\<not> p_idle P_Inner"
  "\<not> p_idle P_Full" "\<not> p_idle P_Waiting" "\<not> p_idle P_Woken"
  by (simp_all add: p_idle_def)

lemmas helper_defs = set_filled_def notify_samp_avail_def notify_buffer_emptied_def
  advance_def wait_for_empty_def next_buffer_def

lemma held_p_update [simp]:
  "held (s\<lparr>p_pc := x\<rparr>) = held s"
  "held (s\<lparr>p_running := r\<rparr>) = held s"
  "held (s\<lparr>running := r\<rparr>) = held s"
  "held (s\<lparr>lock_held := l\<rparr>) = held s"
  "held (s\<lparr>d_pc := d\<rparr>) = held s"
  by (simp_all add: held_def)

lemma work_call_inv:
  assumes inv: "pipeline_inv s" and st: "work_call items s = Some s'"
  shows "pipeline_inv s'"
proof -
  from st have idle: "p_idle (p_pc s)"
    and s': "s' = s\<lparr>p_in := items, p_noutput := int (length items),
                    p_running := running s, p_num_samples := int (length items),
                    p_pc := P_Outer\<rparr>"
    by (auto simp: work_call_def split: if_splits)
  from inv have pool: "pool_inv s" and prod: "producer_inv s" and cons: "consumer_inv s"
    and hist: "history_inv s"
    by (simp_all add: pipeline_inv_def)
  have "pool_inv s'" using pool by (simp add: pool_inv_def s')
  moreover have "producer_inv s'"
    using prod idle by (auto simp: producer_inv_def s')
  moreover have "held s' = held s" by (simp add: held_def s')
  then have "consumer_inv s'" using cons by (simp add: consumer_inv_def s')
  moreover have "history_inv s'" using hist by (simp add: history_inv_def s')
  ultimately show ?thesis by (simp add: pipeline_inv_def)
qed

lemma pipeline_invD:
  assumes "pipeline_inv s"
  shows "pool_inv s" "producer_inv s" "consumer_inv s" "history_inv s"
  using assms by (simp_all add: pipeline_inv_def)

lemma producer_inv_cursor:
  assumes "producer_inv s"
  shows "samples_left s \<le> n_samples s"
    and "next_value s = buffers s ! buf_index s + 2 * (n_samples s - samples_left s)"
  using assms by (simp_all add: producer_inv_def)

lemma pool_inv_pos: "pool_inv s \<Longrightarrow> 0 < n_buffers s"
  by (simp add: pool_inv_def pool_ok_def)

subsection \<open>The Producer's steps\<close>

lemma producer_step_outer:
  "p_pc s = P_Outer \<Longrightarrow>
   producer_step s =
     Some (s\<lparr>p_pc := (if p_running s \<and> 0 < p_num_samples s then P_Inner
                       else P_Done (if p_running s then p_noutput s else 0))\<rparr>)"
  by (simp add: producer_step_def)

lemma producer_step_inner_exit:
  "p_pc s = P_Inner \<Longrightarrow> samples_left s = 0 \<or> p_num_samples s = 0 \<Longrightarrow>
   producer_step s = Some (s\<lparr>p_pc := P_Full\<rparr>)"
  by (auto simp: producer_step_def)

lemma producer_step_inner_write:
  "p_pc s = P_Inner \<Longrightarrow> samples_left s \<noteq> 0 \<Longrightarrow> p_num_samples s \<noteq> 0 \<Longrightarrow>
   p_in s = x # xs \<Longrightarrow>
   producer_step s =
     Some (s\<lparr>mem := write_sample x (next_value s) (mem s),
             next_value := next_value s + 2, p_in := xs,
             p_num_samples := p_num_samples s - 1,
             samples_left := samples_left s - 1\<rparr>)"
  by (simp add: producer_step_def)

lemma producer_step_full_skip:
  "p_pc s = P_Full \<Longrightarrow> samples_left s \<noteq> 0 \<Longrightarrow>
   producer_step s = Some (s\<lparr>p_pc := P_Outer\<rparr>)"
  by (simp add: producer_step_def)

lemma producer_step_full_rotate:
  "p_pc s = P_Full \<Longrightarrow> samples_left s = 0 \<Longrightarrow> \<not> lock_held s \<Longrightarrow>
   producer_step s =
     Some (wait_for_empty (notify_samp_avail (advance (set_filled (buf_index s) True s))))"
  by (simp add: producer_step_def)

lemma producer_step_woken:
  "p_pc s = P_Woken \<Longrightarrow> \<not> lock_held s \<Longrightarrow>
   producer_step s = Some (wait_for_empty (s\<lparr>p_running := running s\<rparr>))"
  by (simp add: producer_step_def)

lemma producer_step_enabled:
  assumes "producer_step s = Some s'"
  shows "p_pc s = P_Outer \<or> p_pc s = P_Inner \<or> p_pc s = P_Full \<or> p_pc s = P_Woken"
  using assms by (cases "p_pc s") (simp_all add: producer_step_def)

text \<open>The fields after the statements under the lock.\<close>

lemma rotate_fields:
  fixes s :: pipeline
  defines "s' \<equiv> wait_for_empty (notify_samp_avail (advance (set_filled (buf_index s) True s)))"
  shows "filled s' = (filled s)[buf_index s := True]"
    and "assignments s' = assignments s @ [(buf_index s, True)]"
    and "buf_index s' = (buf_index s + 1) mod n_buffers s"
    and "next_value s' = buffers s ! ((buf_index s + 1) mod n_buffers s)"
    and "samples_left s' = n_samples s"
    and "c_pc s' = (if c_pc s = C_Waiting then C_Woken else c_pc s)"
    and "p_pc s' = (if (filled s)[buf_index s := True] ! ((buf_index s + 1) mod n_buffers s)
                        \<and> p_running s then P_Waiting else P_Outer)"
    and "n_buffers s' = n_buffers s" and "n_samples s' = n_samples s"
    and "n_transfers s' = n_transfers s" and "buffers s' = buffers s"
    and "next_to_tx s' = next_to_tx s" and "inflight s' = inflight s"
    and "running s' = running s" and "p_running s' = p_running s"
    and "p_num_samples s' = p_num_samples s" and "p_in s' = p_in s"
    and "p_noutput s' = p_noutput s" and "mem s' = mem s"
    and "d_pc s' = d_pc s" and "lock_held s' = lock_held s"
  unfolding s'_def by (simp_all add: helper_defs)

lemma held_cong:
  "inflight s' = inflight s \<Longrightarrow>
   c_pc s' = c_pc s \<or> (c_pc s = C_Waiting \<and> c_pc s' = C_Woken) \<Longrightarrow> held s' = held s"
  by (auto simp: held_def)

lemma consumer_bound_cong:
  "c_pc s' = c_pc s \<or> (c_pc s = C_Waiting \<and> c_pc s' = C_Woken) \<Longrightarrow>
   (if c_pc s' = C_Idle \<or> c_pc s' = C_Ret None \<or> c_pc s' = C_Threw \<or> c_pc s' = C_Exited
    then 0 else 1) =
   (if c_pc s = C_Idle \<or> c_pc s = C_Ret None \<or> c_pc s = C_Threw \<or> c_pc s = C_Exited
    then 0 else (1::nat))"
  by auto

lemma rotate_inv:
  assumes inv: "pipeline_inv s" and pc: "p_pc s = P_Full" and z: "samples_left s = 0"
  shows "pipeline_inv
           (wait_for_empty (notify_samp_avail (advance (set_filled (buf_index s) True s))))"
proof -
  let ?s = "wait_for_empty (notify_samp_avail (advance (set_filled (buf_index s) True s)))"
  note f = rotate_fields [of s]
  note pool = pipeline_invD(1) [OF inv] and prod = pipeline_invD(2) [OF inv]
    and cons = pipeline_invD(3) [OF inv] and hist = pipeline_invD(4) [OF inv]
  have N: "0 < n_buffers s" using pool by (rule pool_inv_pos)
  have free: "\<not> filled s ! buf_index s" and run: "p_running s"
    and num: "p_num_samples s = int (length (p_in s))"
    using prod pc by (simp_all add: producer_inv_def)
  have "pool_inv ?s"
    using pool N by (simp add: pool_inv_def f)
  moreover have "producer_inv ?s"
    using run num by (simp add: producer_inv_def f)
  moreover have "consumer_inv ?s"
  proof -
    have c: "c_pc ?s = c_pc s \<or> (c_pc s = C_Waiting \<and> c_pc ?s = C_Woken)"
      by (simp add: f)
    have h: "held ?s = held s" using f(13) c by (rule held_cong)
    have "slots_held (n_buffers s) (buffers s) (next_to_tx s)
            ((filled s)[buf_index s := True]) (held s)"
      using cons by (simp add: consumer_inv_def slots_held_mark)
    then show ?thesis
      using cons unfolding consumer_inv_def h consumer_bound_cong [OF c]
      by (simp add: f)
  qed
  moreover have "history_inv ?s"
  proof -
    have "history_ok (n_buffers s) ((filled s)[buf_index s := True])
            (assignments s @ [(buf_index s, True)])"
      using hist pool free
      by (intro history_ok_assign) (simp_all add: history_inv_def pool_inv_def)
    then show ?thesis by (simp add: history_inv_def f)
  qed
  ultimately show ?thesis by (simp add: pipeline_inv_def)
qed

lemma producer_frame_inv:
  assumes inv: "pipeline_inv s" and prod: "producer_inv s'"
    and same: "n_buffers s' = n_buffers s" "n_samples s' = n_samples s"
      "n_transfers s' = n_transfers s" "buffers s' = buffers s" "filled s' = filled s"
      "buf_index s' = buf_index s" "next_to_tx s' = next_to_tx s"
      "inflight s' = inflight s" "c_pc s' = c_pc s" "assignments s' = assignments s"
  shows "pipeline_inv s'"
proof -
  have "pool_inv s'" using pipeline_invD(1) [OF inv] by (simp add: pool_inv_def same)
  moreover have "held s' = held s" by (simp add: held_def same)
  then have "consumer_inv s'"
    using pipeline_invD(3) [OF inv] by (simp add: consumer_inv_def same)
  moreover have "history_inv s'"
    using pipeline_invD(4) [OF inv] by (simp add: history_inv_def same)
  ultimately show ?thesis using prod by (simp add: pipeline_inv_def)
qed

lemma producer_step_inv:
  assumes inv: "pipeline_inv s" and st: "producer_step s = Some s'"
  shows "pipeline_inv s'"
proof -
  note prod = pipeline_invD(2) [OF inv]
  from producer_step_enabled [OF st]
  consider (outer) "p_pc s = P_Outer" | (inner) "p_pc s = P_Inner"
    | (full) "p_pc s = P_Full" | (woken) "p_pc s = P_Woken"
    by blast
  then show ?thesis
  proof cases
    case outer
    with st have s': "s' = s\<lparr>p_pc := (if p_running s \<and> 0 < p_num_samples s then P_Inner
                       else P_Done (if p_running s then p_noutput s else 0))\<rparr>"
      by (simp add: producer_step_outer)
    have "producer_inv s'"
      using prod outer by (auto simp: producer_inv_def s' split: if_splits)
    then show ?thesis by (rule producer_frame_inv [OF inv]) (simp_all add: s')
  next
    case inner
    show ?thesis
    proof (cases "samples_left s \<noteq> 0 \<and> p_num_samples s \<noteq> 0")
      case False
      with st inner have s': "s' = s\<lparr>p_pc := P_Full\<rparr>"
        by (auto simp: producer_step_inner_exit)
      have "producer_inv s'"
        using prod inner by (simp add: producer_inv_def s')
      then show ?thesis by (rule producer_frame_inv [OF inv]) (simp_all add: s')
    next
      case True
      with st inner obtain x xs where xs: "p_in s = x # xs"
        by (cases "p_in s") (simp_all add: producer_step_def)
      with st inner True have s': "s' = s\<lparr>mem := write_sample x (next_value s) (mem s),
             next_value := next_value s + 2, p_in := xs,
             p_num_samples := p_num_samples s - 1,
             samples_left := samples_left s - 1\<rparr>"
        by (simp add: producer_step_inner_write)
      have sl: "samples_left s - 1 \<le> n_samples s"
        and nv: "next_value s + 2 =
            buffers s ! buf_index s + 2 * (n_samples s - (samples_left s - 1))"
        using producer_inv_cursor [OF prod] True by simp_all
      have "producer_inv s'"
        using prod inner xs sl nv by (simp add: producer_inv_def s')
      then show ?thesis by (rule producer_frame_inv [OF inv]) (simp_all add: s')
    qed
  next
    case full
    show ?thesis
    proof (cases "samples_left s = 0")
      case True
      with st full have "\<not> lock_held s"
        by (auto simp: producer_step_def split: if_splits)
      with st full True
      have "s' = wait_for_empty (notify_samp_avail (advance (set_filled (buf_index s) True s)))"
        by (simp add: producer_step_full_rotate)
      then show ?thesis using rotate_inv [OF inv full True] by simp
    next
      case False
      with st full have s': "s' = s\<lparr>p_pc := P_Outer\<rparr>"
        by (simp add: producer_step_full_skip)
      have "producer_inv s'"
        using prod full by (simp add: producer_inv_def s')
      then show ?thesis by (rule producer_frame_inv [OF inv]) (simp_all add: s')
    qed
  next
    case woken
    with st have "\<not> lock_held s"
      by (auto simp: producer_step_def split: if_splits)
    with st woken have s': "s' = wait_for_empty (s\<lparr>p_running := running s\<rparr>)"
      by (simp add: producer_step_woken)
    have "producer_inv s'"
      using prod woken by (auto simp: producer_inv_def s' wait_for_empty_def)
    then show ?thesis
      by (rule producer_frame_inv [OF inv]) (simp_all add: s' wait_for_empty_def)
  qed
qed

subsection \<open>The Consumer's steps\<close>

lemma next_buffer_fields:
  "n_buffers (next_buffer s) = n_buffers s" "n_samples (next_buffer s) = n_samples s"
  "n_transfers (next_buffer s) = n_transfers s" "buffers (next_buffer s) = buffers s"
  "filled (next_buffer s) = filled s" "buf_index (next_buffer s) = buf_index s"
  "inflight (next_buffer s) = inflight s" "assignments (next_buffer s) = assignments s"
  "running (next_buffer s) = running s" "p_pc (next_buffer s) = p_pc s"
  "p_running (next_buffer s) = p_running s" "p_num_samples (next_buffer s) = p_num_samples s"
  "p_in (next_buffer s) = p_in s" "p_noutput (next_buffer s) = p_noutput s"
  "next_value (next_buffer s) = next_value s" "samples_left (next_buffer s) = samples_left s"
  "mem (next_buffer s) = mem s" "d_pc (next_buffer s) = d_pc s"
  "lock_held (next_buffer s) = lock_held s"
  by (simp_all add: next_buffer_def)

lemma next_buffer_c_pc:
  "c_pc (next_buffer s) =
     (if running s \<and> \<not> filled s ! next_to_tx s then C_Waiting
      else if running s then C_Ret (Some (buffers s ! next_to_tx s)) else C_Ret None)"
  by (simp add: next_buffer_def)

lemma next_buffer_next_to_tx:
  "next_to_tx (next_buffer s) =
     (if running s \<and> filled s ! next_to_tx s then (next_to_tx s + 1) mod n_buffers s
      else next_to_tx s)"
  by (simp add: next_buffer_def)

lemma held_next_buffer:
  "held (next_buffer s) =
     inflight s @ (if running s \<and> filled s ! next_to_tx s
                   then [buffers s ! next_to_tx s] else [])"
  by (simp add: held_def next_buffer_c_pc next_buffer_fields)

lemma next_buffer_inv:
  assumes pool: "pool_inv s" and prod: "producer_inv s" and hist: "history_inv s"
    and h: "slots_held (n_buffers s) (buffers s) (next_to_tx s) (filled s) (inflight s)"
    and b: "length (inflight s) < n_transfers s"
  shows "pipeline_inv (next_buffer s)"
proof -
  note f = next_buffer_fields [of s]
  have N: "0 < n_buffers s" using pool by (rule pool_inv_pos)
  have T: "n_transfers s \<le> n_buffers s" using pool by (simp add: pool_inv_def pool_ok_def)
  have n: "next_to_tx s < n_buffers s" using pool by (simp add: pool_inv_def)
  have "producer_inv (next_buffer s)"
    using prod by (simp add: producer_inv_def f)
  moreover have "history_inv (next_buffer s)"
    using hist by (simp add: history_inv_def f)
  moreover have "pool_inv (next_buffer s)"
    using pool N by (simp add: pool_inv_def f next_buffer_next_to_tx)
  moreover have "consumer_inv (next_buffer s)"
  proof (cases "running s \<and> filled s ! next_to_tx s")
    case True
    have "slots_held (n_buffers s) (buffers s) ((next_to_tx s + 1) mod n_buffers s)
            (filled s) (inflight s @ [buffers s ! next_to_tx s])"
      using h _ _ n
    proof (rule slots_held_hand_out)
      show "length (inflight s) < n_buffers s" using b T by simp
      show "filled s ! next_to_tx s" using True by simp
    qed
    then show ?thesis
      using b True
      by (simp add: consumer_inv_def f held_next_buffer next_buffer_next_to_tx
          next_buffer_c_pc)
  next
    case False
    then have "held (next_buffer s) = inflight s"
      and "next_to_tx (next_buffer s) = next_to_tx s"
      by (auto simp: held_next_buffer next_buffer_next_to_tx)
    then show ?thesis
      using h b by (simp add: consumer_inv_def f)
  qed
  ultimately show ?thesis by (simp add: pipeline_inv_def)
qed

lemma consumer_step_enabled:
  assumes "consumer_step s = Some s'"
  shows "\<not> lock_held s \<and> ((\<exists>x. c_pc s = C_Call x) \<or> c_pc s = C_Woken)"
  using assms by (cases "c_pc s") (simp_all add: consumer_step_def split: if_splits)

lemma consumer_step_null:
  "\<not> lock_held s \<Longrightarrow> c_pc s = C_Call None \<or> c_pc s = C_Woken \<Longrightarrow>
   consumer_step s = Some (next_buffer s)"
  by (auto simp: consumer_step_def)

lemma consumer_step_returned:
  "\<not> lock_held s \<Longrightarrow> c_pc s = C_Call (Some a) \<Longrightarrow>
   buffer2index (buffers s) a (n_buffers s) = Some i \<Longrightarrow>
   consumer_step s = Some (next_buffer (notify_buffer_emptied (set_filled i False s)))"
  by (simp add: consumer_step_def)

lemma release_fields:
  fixes i :: nat and s :: pipeline
  defines "s' \<equiv> notify_buffer_emptied (set_filled i False s)"
  shows "filled s' = (filled s)[i := False]"
    and "assignments s' = assignments s @ [(i, False)]"
    and "p_pc s' = (if p_pc s = P_Waiting then P_Woken else p_pc s)"
    and "n_buffers s' = n_buffers s" and "n_samples s' = n_samples s"
    and "n_transfers s' = n_transfers s" and "buffers s' = buffers s"
    and "buf_index s' = buf_index s" and "next_to_tx s' = next_to_tx s"
    and "inflight s' = inflight s" and "c_pc s' = c_pc s"
    and "running s' = running s" and "p_running s' = p_running s"
    and "p_num_samples s' = p_num_samples s" and "p_in s' = p_in s"
    and "next_value s' = next_value s" and "samples_left s' = samples_left s"
    and "p_noutput s' = p_noutput s" and "mem s' = mem s"
    and "d_pc s' = d_pc s" and "lock_held s' = lock_held s"
  unfolding s'_def by (simp_all add: helper_defs)

lemma producer_inv_release:
  assumes "producer_inv s"
  shows "producer_inv (notify_buffer_emptied (set_filled i False s))"
proof -
  note f = release_fields [of i s]
  have fl: "\<not> filled s ! k \<Longrightarrow> \<not> (filled s)[i := False] ! k" for k
    by (cases "i < length (filled s)") (simp_all add: nth_list_update list_update_beyond)
  show ?thesis
    using assms fl [of "buf_index s"]
    by (auto simp: producer_inv_def f)
qed

lemma consumer_step_inv:
  assumes inv: "pipeline_inv s" and st: "consumer_step s = Some s'"
  shows "pipeline_inv s'"
proof -
  note pool = pipeline_invD(1) [OF inv] and prod = pipeline_invD(2) [OF inv]
    and cons = pipeline_invD(3) [OF inv] and hist = pipeline_invD(4) [OF inv]
  have N: "0 < n_buffers s" using pool by (rule pool_inv_pos)
  from consumer_step_enabled [OF st] have lock: "\<not> lock_held s"
    and pc: "(\<exists>x. c_pc s = C_Call x) \<or> c_pc s = C_Woken" by simp_all
  show ?thesis
  proof (cases "\<exists>a. c_pc s = C_Call (Some a)")
    case False
    with pc have pc': "c_pc s = C_Call None \<or> c_pc s = C_Woken" by auto
    with st lock have s': "s' = next_buffer s" by (simp add: consumer_step_null)
    from pc' have "held s = inflight s" by (auto simp: held_def)
    with cons pc' have
      "slots_held (n_buffers s) (buffers s) (next_to_tx s) (filled s) (inflight s)"
      and "length (inflight s) < n_transfers s"
      by (auto simp: consumer_inv_def)
    with pool prod hist show ?thesis unfolding s' by (rule next_buffer_inv)
  next
    case True
    then obtain a where a: "c_pc s = C_Call (Some a)" by blast
    then have hd: "held s = a # inflight s" by (simp add: held_def)
    from cons have sh: "slots_held (n_buffers s) (buffers s) (next_to_tx s) (filled s)
        (a # inflight s)"
      and b: "length (inflight s) < n_transfers s"
      using a by (simp_all add: consumer_inv_def hd)
    let ?i = "held_slot (n_buffers s) (next_to_tx s) (Suc (length (inflight s))) 0"
    have lens: "length (filled s) = n_buffers s" "length (buffers s) = n_buffers s"
      "distinct (buffers s)"
      using pool by (simp_all add: pool_inv_def pool_ok_def)
    note rel = slots_held_release [OF sh N lens]
    let ?s = "notify_buffer_emptied (set_filled ?i False s)"
    note f = release_fields [of ?i s]
    from st lock a rel(1) have s': "s' = next_buffer ?s"
      by (simp add: consumer_step_returned)
    have i: "?i < n_buffers s" using N by (rule held_slot_lt)
    have "pool_inv ?s" using pool by (simp add: pool_inv_def f)
    moreover have "producer_inv ?s" using prod by (rule producer_inv_release)
    moreover have "history_inv ?s"
    proof -
      have "history_ok (n_buffers s) ((filled s)[?i := False]) (assignments s @ [(?i, False)])"
        using hist i lens(1) rel(2)
        by (intro history_ok_assign) (simp_all add: history_inv_def)
      then show ?thesis by (simp add: history_inv_def f)
    qed
    moreover have "slots_held (n_buffers ?s) (buffers ?s) (next_to_tx ?s) (filled ?s)
        (inflight ?s)"
      using rel(3) by (simp add: f)
    moreover have "length (inflight ?s) < n_transfers ?s" using b by (simp add: f)
    ultimately show ?thesis unfolding s' by (rule next_buffer_inv)
  qed
qed

subsection \<open>The engine's steps, the wake-ups and the destructor\<close>

lemma callback_null_inv:
  assumes inv: "pipeline_inv s" and st: "callback_null s = Some s'"
  shows "pipeline_inv s'"
proof -
  from st have c: "c_pc s = C_Idle" and b: "length (inflight s) < n_transfers s"
    and s': "s' = s\<lparr>c_pc := C_Call None\<rparr>"
    by (simp_all add: callback_null_def split: if_splits)
  have h: "held s' = held s" by (simp add: held_def s' c)
  have "pool_inv s'" using pipeline_invD(1) [OF inv] by (simp add: pool_inv_def s')
  moreover have "producer_inv s'"
    using pipeline_invD(2) [OF inv] by (simp add: producer_inv_def s')
  moreover have "consumer_inv s'"
    using pipeline_invD(3) [OF inv] b unfolding consumer_inv_def h by (simp add: s')
  moreover have "history_inv s'"
    using pipeline_invD(4) [OF inv] by (simp add: history_inv_def s')
  ultimately show ?thesis by (simp add: pipeline_inv_def)
qed

lemma callback_done_inv:
  assumes inv: "pipeline_inv s" and st: "callback_done s = Some s'"
  shows "pipeline_inv s'"
proof -
  from st obtain a rest where c: "c_pc s = C_Idle" and i: "inflight s = a # rest"
    and s': "s' = s\<lparr>c_pc := C_Call (Some a), inflight := rest\<rparr>"
    by (cases "inflight s") (simp_all add: callback_done_def split: if_splits)
  have h: "held s' = held s" by (simp add: held_def s' c i)
  have "pool_inv s'" using pipeline_invD(1) [OF inv] by (simp add: pool_inv_def s')
  moreover have "producer_inv s'"
    using pipeline_invD(2) [OF inv] by (simp add: producer_inv_def s')
  moreover have "consumer_inv s'"
    using pipeline_invD(3) [OF inv] c i unfolding consumer_inv_def h by (simp add: s')
  moreover have "history_inv s'"
    using pipeline_invD(4) [OF inv] by (simp add: history_inv_def s')
  ultimately show ?thesis by (simp add: pipeline_inv_def)
qed

lemma submit_inv:
  assumes inv: "pipeline_inv s" and st: "submit s = Some s'"
  shows "pipeline_inv s'"
proof -
  from st obtain b where c: "c_pc s = C_Ret (Some b)"
    and s': "s' = s\<lparr>inflight := inflight s @ [b], c_pc := C_Idle\<rparr>"
    by (auto simp: submit_def split: c_pc.splits option.splits)
  have h: "held s' = held s" by (simp add: held_def s' c)
  have "pool_inv s'" using pipeline_invD(1) [OF inv] by (simp add: pool_inv_def s')
  moreover have "producer_inv s'"
    using pipeline_invD(2) [OF inv] by (simp add: producer_inv_def s')
  moreover have "consumer_inv s'"
    using pipeline_invD(3) [OF inv] c unfolding consumer_inv_def h by (simp add: s')
  moreover have "history_inv s'"
    using pipeline_invD(4) [OF inv] by (simp add: history_inv_def s')
  ultimately show ?thesis by (simp add: pipeline_inv_def)
qed

lemma stream_end_inv:
  assumes inv: "pipeline_inv s" and st: "stream_end s = Some s'"
  shows "pipeline_inv s'"
proof -
  from st have c: "c_pc s = C_Idle \<or> c_pc s = C_Ret None"
    and s': "s' = s\<lparr>running := False, c_pc := C_Exited\<rparr>"
    by (simp_all add: stream_end_def split: if_splits)
  have h: "held s' = held s" using c by (auto simp: held_def s')
  have "pool_inv s'" using pipeline_invD(1) [OF inv] by (simp add: pool_inv_def s')
  moreover have "producer_inv s'"
    using pipeline_invD(2) [OF inv] by (simp add: producer_inv_def s')
  moreover have "consumer_inv s'"
    using pipeline_invD(3) [OF inv] c unfolding consumer_inv_def h by (auto simp: s')
  moreover have "history_inv s'"
    using pipeline_invD(4) [OF inv] by (simp add: history_inv_def s')
  ultimately show ?thesis by (simp add: pipeline_inv_def)
qed

lemma wake_producer_inv:
  assumes inv: "pipeline_inv s" and st: "wake_producer s = Some s'"
  shows "pipeline_inv s'"
proof -
  from st have p: "p_pc s = P_Waiting" and s': "s' = s\<lparr>p_pc := P_Woken\<rparr>"
    by (simp_all add: wake_producer_def split: if_splits)
  have "producer_inv s'"
    using pipeline_invD(2) [OF inv] p by (simp add: producer_inv_def s')
  then show ?thesis by (rule producer_frame_inv [OF inv]) (simp_all add: s')
qed

lemma notify_samp_avail_inv:
  assumes inv: "pipeline_inv s"
  shows "pipeline_inv (notify_samp_avail s)"
proof (cases "c_pc s = C_Waiting")
  case False
  then show ?thesis using inv by (simp add: notify_samp_avail_def)
next
  case True
  then have s': "notify_samp_avail s = s\<lparr>c_pc := C_Woken\<rparr>"
    by (simp add: notify_samp_avail_def)
  have h: "held (s\<lparr>c_pc := C_Woken\<rparr>) = held s" using True by (simp add: held_def)
  have "pool_inv (s\<lparr>c_pc := C_Woken\<rparr>)"
    using pipeline_invD(1) [OF inv] by (simp add: pool_inv_def)
  moreover have "producer_inv (s\<lparr>c_pc := C_Woken\<rparr>)"
    using pipeline_invD(2) [OF inv] by (simp add: producer_inv_def)
  moreover have "consumer_inv (s\<lparr>c_pc := C_Woken\<rparr>)"
    using pipeline_invD(3) [OF inv] True unfolding consumer_inv_def h by simp
  moreover have "history_inv (s\<lparr>c_pc := C_Woken\<rparr>)"
    using pipeline_invD(4) [OF inv] by (simp add: history_inv_def)
  ultimately show ?thesis unfolding s' by (simp add: pipeline_inv_def)
qed

lemma wake_consumer_inv:
  assumes inv: "pipeline_inv s" and st: "wake_consumer s = Some s'"
  shows "pipeline_inv s'"
proof -
  from st have "c_pc s = C_Waiting" and "s' = s\<lparr>c_pc := C_Woken\<rparr>"
    by (simp_all add: wake_consumer_def split: if_splits)
  then have "s' = notify_samp_avail s" by (simp add: notify_samp_avail_def)
  then show ?thesis using notify_samp_avail_inv [OF inv] by simp
qed

lemma notify_buffer_emptied_inv:
  assumes inv: "pipeline_inv s"
  shows "pipeline_inv (notify_buffer_emptied s)"
proof (cases "p_pc s = P_Waiting")
  case False
  then show ?thesis using inv by (simp add: notify_buffer_emptied_def)
next
  case True
  then have "wake_producer s = Some (notify_buffer_emptied s)"
    by (simp add: wake_producer_def notify_buffer_emptied_def)
  with inv show ?thesis by (rule wake_producer_inv)
qed

lemma flag_update_inv:
  assumes inv: "pipeline_inv s"
  shows "pipeline_inv (s\<lparr>d_pc := d\<rparr>)" and "pipeline_inv (s\<lparr>lock_held := l, d_pc := d\<rparr>)"
    and "pipeline_inv (s\<lparr>running := False, d_pc := d\<rparr>)"
proof -
  have "producer_inv (s\<lparr>d_pc := d\<rparr>)"
    using pipeline_invD(2) [OF inv] by (simp add: producer_inv_def)
  then show "pipeline_inv (s\<lparr>d_pc := d\<rparr>)"
    by (rule producer_frame_inv [OF inv]) simp_all
  have "producer_inv (s\<lparr>lock_held := l, d_pc := d\<rparr>)"
    using pipeline_invD(2) [OF inv] by (simp add: producer_inv_def)
  then show "pipeline_inv (s\<lparr>lock_held := l, d_pc := d\<rparr>)"
    by (rule producer_frame_inv [OF inv]) simp_all
  have "producer_inv (s\<lparr>running := False, d_pc := d\<rparr>)"
    using pipeline_invD(2) [OF inv] by (simp add: producer_inv_def)
  then show "pipeline_inv (s\<lparr>running := False, d_pc := d\<rparr>)"
    by (rule producer_frame_inv [OF inv]) simp_all
qed

lemma destructor_step_inv:
  assumes inv: "pipeline_inv s" and st: "destructor_step s = Some s'"
  shows "pipeline_inv s'"
proof (cases "d_pc s")
  case D_Idle
  with st have "s' = s\<lparr>running := False, d_pc := D_Stopped\<rparr>"
    by (simp add: destructor_step_def)
  then show ?thesis using flag_update_inv(3) [OF inv] by simp
next
  case D_Stopped
  with st have "s' = s\<lparr>lock_held := True, d_pc := D_Locked\<rparr>"
    by (simp add: destructor_step_def)
  then show ?thesis using flag_update_inv(2) [OF inv] by simp
next
  case D_Locked
  with st have "s' = (notify_samp_avail s)\<lparr>d_pc := D_Notified_Samp_Avail\<rparr>"
    by (simp add: destructor_step_def)
  then show ?thesis using flag_update_inv(1) [OF notify_samp_avail_inv [OF inv]] by simp
next
  case D_Notified_Samp_Avail
  with st have "s' = (notify_buffer_emptied s)\<lparr>d_pc := D_Notified_Buffer_Emptied\<rparr>"
    by (simp add: destructor_step_def)
  then show ?thesis using flag_update_inv(1) [OF notify_buffer_emptied_inv [OF inv]] by simp
next
  case D_Notified_Buffer_Emptied
  with st have "s' = s\<lparr>lock_held := False, d_pc := D_Unlocked\<rparr>"
    by (simp add: destructor_step_def)
  then show ?thesis using flag_update_inv(2) [OF inv] by simp
next
  case D_Unlocked
  with st have "s' = s\<lparr>d_pc := D_Joined\<rparr>"
    by (simp add: destructor_step_def split: if_splits)
  then show ?thesis using flag_update_inv(1) [OF inv] by simp
next
  case D_Joined
  with st have "s' = s\<lparr>d_pc := D_Module_Disabled\<rparr>"
    by (simp add: destructor_step_def)
  then show ?thesis using flag_update_inv(1) [OF inv] by simp
next
  case D_Module_Disabled
  with st have "s' = s\<lparr>d_pc := D_Stream_Released\<rparr>"
    by (simp add: destructor_step_def)
  then show ?thesis using flag_update_inv(1) [OF inv] by simp
next
  case D_Stream_Released
  with st have "s' = s\<lparr>d_pc := D_Device_Closed\<rparr>"
    by (simp add: destructor_step_def)
  then show ?thesis using flag_update_inv(1) [OF inv] by simp
next
  case D_Device_Closed
  with st have "s' = s\<lparr>d_pc := D_Filled_Deleted\<rparr>"
    by (simp add: destructor_step_def)
  then show ?thesis using flag_update_inv(1) [OF inv] by simp
next
  case D_Filled_Deleted
  with st show ?thesis by (simp add: destructor_step_def)
qed

lemma step_inv:
  assumes inv: "pipeline_inv s" and st: "step a s = Some s'"
  shows "pipeline_inv s'"
proof (cases a)
  case (Work items)
  with st have "work_call items s = Some s'" by (simp add: step_def)
  with inv show ?thesis by (rule work_call_inv)
next
  case Producer
  with st have "producer_step s = Some s'" by (simp add: step_def)
  with inv show ?thesis by (rule producer_step_inv)
next
  case Callback_Null
  with st have "callback_null s = Some s'" by (simp add: step_def)
  with inv show ?thesis by (rule callback_null_inv)
next
  case Callback_Done
  with st have "callback_done s = Some s'" by (simp add: step_def)
  with inv show ?thesis by (rule callback_done_inv)
next
  case Consumer
  with st have "consumer_step s = Some s'" by (simp add: step_def)
  with inv show ?thesis by (rule consumer_step_inv)
next
  case Submit
  with st have "submit s = Some s'" by (simp add: step_def)
  with inv show ?thesis by (rule submit_inv)
next
  case Stream_End
  with st have "stream_end s = Some s'" by (simp add: step_def)
  with inv show ?thesis by (rule stream_end_inv)
next
  case Wake_Producer
  with st have "wake_producer s = Some s'" by (simp add: step_def)
  with inv show ?thesis by (rule wake_producer_inv)
next
  case Wake_Consumer
  with st have "wake_consumer s = Some s'" by (simp add: step_def)
  with inv show ?thesis by (rule wake_consumer_inv)
next
  case Destructor
  with st have "destructor_step s = Some s'" by (simp add: step_def)
  with inv show ?thesis by (rule destructor_step_inv)
qed

lemma start_inv:
  assumes "pool_ok N spb T bufs"
  shows "pipeline_inv (start_pipeline N spb T bufs)"
proof -
  let ?s = "start_pipeline N spb T bufs"
  have N: "0 < N" using assms by (simp add: pool_ok_def)
  have "pool_inv ?s" using assms N by (simp add: pool_inv_def start_pipeline_def)
  moreover have "producer_inv ?s"
    using N by (simp add: producer_inv_def start_pipeline_def)
  moreover have "consumer_inv ?s"
    by (simp add: consumer_inv_def start_pipeline_def held_def slots_held_def)
  moreover have "history_inv ?s"
    using N by (simp add: history_inv_def start_pipeline_def history_ok_def alternating_def)
  ultimately show ?thesis by (simp add: pipeline_inv_def)
qed

lemma reach_inv:
  assumes "reach s0 s" "pipeline_inv s0"
  shows "pipeline_inv s"
  using assms
proof (induction rule: reach.induct)
  case reach_start
  then show ?case by simp
next
  case (reach_step s a s')
  then show ?case by (blast intro: step_inv)
qed

lemma pool_of_update [simp]:
  "pool_of (s\<lparr>p_pc := a1\<rparr>) = pool_of s"
  "pool_of (s\<lparr>c_pc := a2\<rparr>) = pool_of s"
  "pool_of (s\<lparr>d_pc := a3\<rparr>) = pool_of s"
  "pool_of (s\<lparr>running := a4\<rparr>) = pool_of s"
  "pool_of (s\<lparr>lock_held := a5\<rparr>) = pool_of s"
  "pool_of (s\<lparr>inflight := a6\<rparr>) = pool_of s"
  "pool_of (s\<lparr>p_running := a7\<rparr>) = pool_of s"
  "pool_of (s\<lparr>p_in := a8\<rparr>) = pool_of s"
  "pool_of (s\<lparr>p_noutput := a9\<rparr>) = pool_of s"
  "pool_of (s\<lparr>p_num_samples := b1\<rparr>) = pool_of s"
  "pool_of (s\<lparr>mem := b2\<rparr>) = pool_of s"
  "pool_of (s\<lparr>next_value := b3\<rparr>) = pool_of s"
  "pool_of (s\<lparr>samples_left := b4\<rparr>) = pool_of s"
  "pool_of (s\<lparr>next_to_tx := b5\<rparr>) = pool_of s"
  "pool_of (s\<lparr>buf_index := b6\<rparr>) = pool_of s"
  "pool_of (s\<lparr>filled := b7\<rparr>) = pool_of s"
  "pool_of (s\<lparr>assignments := b8\<rparr>) = pool_of s"
  by (simp_all add: pool_of_def)

lemma pool_of_helpers [simp]:
  "pool_of (set_filled i b s) = pool_of s"
  "pool_of (notify_samp_avail s) = pool_of s"
  "pool_of (notify_buffer_emptied s) = pool_of s"
  "pool_of (advance s) = pool_of s"
  "pool_of (wait_for_empty s) = pool_of s"
  "pool_of (next_buffer s) = pool_of s"
  by (simp_all add: helper_defs pool_of_def)

lemma producer_step_pool: "producer_step s = Some s' \<Longrightarrow> pool_of s' = pool_of s"
  by (cases "p_pc s")
     (auto simp: producer_step_def split: if_splits list.splits)

lemma consumer_step_pool: "consumer_step s = Some s' \<Longrightarrow> pool_of s' = pool_of s"
  by (cases "c_pc s")
     (auto simp: consumer_step_def split: if_splits option.splits)

lemma destructor_step_pool: "destructor_step s = Some s' \<Longrightarrow> pool_of s' = pool_of s"
  by (cases "d_pc s") (auto simp: destructor_step_def split: if_splits)

lemma step_pool: "step a s = Some s' \<Longrightarrow> pool_of s' = pool_of s"
proof (cases a)
  case (Work items)
  assume "step a s = Some s'"
  with Work show ?thesis by (auto simp: step_def work_call_def split: if_splits)
next
  case Producer
  assume "step a s = Some s'"
  with Producer show ?thesis by (simp add: step_def producer_step_pool)
next
  case Callback_Null
  assume "step a s = Some s'"
  with Callback_Null show ?thesis
    by (auto simp: step_def callback_null_def split: if_splits)
next
  case Callback_Done
  assume "step a s = Some s'"
  with Callback_Done show ?thesis
    by (auto simp: step_def callback_done_def split: if_splits list.splits)
next
  case Consumer
  assume "step a s = Some s'"
  with Consumer show ?thesis by (simp add: step_def consumer_step_pool)
next
  case Submit
  assume "step a s = Some s'"
  with Submit show ?thesis
    by (auto simp: step_def submit_def split: c_pc.splits option.splits)
next
  case Stream_End
  assume "step a s = Some s'"
  with Stream_End show ?thesis by (auto simp: step_def stream_end_def split: if_splits)
next
  case Wake_Producer
  assume "step a s = Some s'"
  with Wake_Producer show ?thesis
    by (auto simp: step_def wake_producer_def split: if_splits)
next
  case Wake_Consumer
  assume "step a s = Some s'"
  with Wake_Consumer show ?thesis
    by (auto simp: step_def wake_consumer_def split: if_splits)
next
  case Destructor
  assume "step a s = Some s'"
  with Destructor show ?thesis by (simp add: step_def destructor_step_pool)
qed

lemma reach_pool: "reach s0 s \<Longrightarrow> pool_of s = pool_of s0"
  by (induction rule: reach.induct) (simp_all add: step_pool)

section \<open>The streaming pipeline: theorems\<close>

lemma run_reach: "run as s = Some s' \<Longrightarrow> reach s0 s \<Longrightarrow> reach s0 s'"
proof (induction as arbitrary: s)
  case Nil
  then show ?case by simp
next
  case (Cons a as)
  from Cons.prems(1) obtain s1 where a: "step a s = Some s1" and r: "run as s1 = Some s'"
    by (cases "step a s") simp_all
  from Cons.prems(2) a have "reach s0 s1" by (rule reach_step)
  with r show ?case by (rule Cons.IH)
qed

lemma slots_held_member:
  assumes "slots_held N bufs ntx fl h" "0 < N" "a \<in> set h"
  shows "\<exists>i < N. a = bufs ! i \<and> fl ! i"
proof -
  from assms(3) obtain j where j: "j < length h" "h ! j = a"
    by (auto simp: in_set_conv_nth)
  with assms(1) have "a = bufs ! held_slot N ntx (length h) j \<and>
      fl ! held_slot N ntx (length h) j"
    unfolding slots_held_def by blast
  moreover have "held_slot N ntx (length h) j < N" using assms(2) by (rule held_slot_lt)
  ultimately show ?thesis by blast
qed

lemma reach_start_facts:
  assumes ok: "pool_ok N spb T bufs" and r: "reach (start_pipeline N spb T bufs) s"
  shows "pipeline_inv s" "n_buffers s = N" "n_samples s = spb" "n_transfers s = T"
    "buffers s = bufs"
proof -
  show "pipeline_inv s" using r start_inv [OF ok] by (rule reach_inv)
  have "pool_of s = pool_of (start_pipeline N spb T bufs)" using r by (rule reach_pool)
  then show "n_buffers s = N" "n_samples s = spb" "n_transfers s = T" "buffers s = bufs"
    by (simp_all add: pool_of_def start_pipeline_def)
qed

text \<open>
  C3. From the state the constructor leaves (all slots unfilled), across every
  interleaving of the steps of the Producer, the Consumer, the transfer engine and the
  destructor: the values assigned to \<open>_filled[i]\<close> alternate true, false, true, ...
  for every slot \<open>i\<close>; a buffer \<open>get_next_buffer\<close> returns to the engine, and every
  buffer in flight, is a slot marked filled; the buffer the engine hands back resolves to
  a slot that is still marked filled when it is marked unfilled; the slot the Producer
  marks filled is unfilled; and the two cells the Producer is about to write lie in the
  slot \<open>_buf_index\<close>, which is unfilled, and in no filled slot.
\<close>

theorem filled_flags_alternate:
  assumes ok: "pool_ok N spb T bufs" and r: "reach (start_pipeline N spb T bufs) s"
  shows "(\<forall>i < N. alternating (slot_history i s)) \<and>
         (\<forall>b. c_pc s = C_Ret (Some b) \<longrightarrow> (\<exists>i < N. b = bufs ! i \<and> filled s ! i)) \<and>
         (\<forall>a \<in> set (inflight s). \<exists>i < N. a = bufs ! i \<and> filled s ! i) \<and>
         (\<forall>a. c_pc s = C_Call (Some a) \<longrightarrow>
            (\<exists>i < N. buffer2index bufs a N = Some i \<and> filled s ! i)) \<and>
         (p_pc s = P_Full \<and> samples_left s = 0 \<longrightarrow>
            buf_index s < N \<and> \<not> filled s ! buf_index s) \<and>
         (p_pc s = P_Inner \<and> samples_left s \<noteq> 0 \<and> p_num_samples s \<noteq> 0 \<longrightarrow>
            buf_index s < N \<and> \<not> filled s ! buf_index s \<and>
            bufs ! buf_index s \<le> next_value s \<and>
            next_value s + 1 < bufs ! buf_index s + 2 * spb \<and>
            (\<forall>i < N. filled s ! i \<longrightarrow>
               next_value s + 1 < bufs ! i \<or> bufs ! i + 2 * spb \<le> next_value s))"
proof -
  note facts = reach_start_facts [OF ok r]
  note inv = facts(1)
  note pool = pipeline_invD(1) [OF inv] and prod = pipeline_invD(2) [OF inv]
    and cons = pipeline_invD(3) [OF inv] and hist = pipeline_invD(4) [OF inv]
  have N: "0 < N" using ok by (simp add: pool_ok_def)
  have bi: "buf_index s < N" using pool by (simp add: pool_inv_def facts)
  have sh: "slots_held N bufs (next_to_tx s) (filled s) (held s)"
    using cons by (simp add: consumer_inv_def facts)
  have alt: "\<forall>i < N. alternating (slot_history i s)"
    using hist by (simp add: history_inv_def history_ok_def slot_history_def facts)
  have ret: "\<forall>b. c_pc s = C_Ret (Some b) \<longrightarrow> (\<exists>i < N. b = bufs ! i \<and> filled s ! i)"
  proof (intro allI impI)
    fix b assume "c_pc s = C_Ret (Some b)"
    then have "b \<in> set (held s)" by (simp add: held_def)
    with sh N show "\<exists>i < N. b = bufs ! i \<and> filled s ! i" by (rule slots_held_member)
  qed
  have fly: "\<forall>a \<in> set (inflight s). \<exists>i < N. a = bufs ! i \<and> filled s ! i"
  proof
    fix a assume "a \<in> set (inflight s)"
    then have "a \<in> set (held s)" by (simp add: held_def)
    with sh N show "\<exists>i < N. a = bufs ! i \<and> filled s ! i" by (rule slots_held_member)
  qed
  have call: "\<forall>a. c_pc s = C_Call (Some a) \<longrightarrow>
      (\<exists>i < N. buffer2index bufs a N = Some i \<and> filled s ! i)"
  proof (intro allI impI)
    fix a assume "c_pc s = C_Call (Some a)"
    then have "held s = a # inflight s" by (simp add: held_def)
    with sh have h: "slots_held N bufs (next_to_tx s) (filled s) (a # inflight s)" by simp
    have lens: "length (filled s) = N" "length bufs = N" "distinct bufs"
      using pool by (simp_all add: pool_inv_def pool_ok_def facts)
    note rel = slots_held_release [OF h N lens]
    have "held_slot N (next_to_tx s) (Suc (length (inflight s))) 0 < N"
      using N by (rule held_slot_lt)
    with rel(1,2) show "\<exists>i < N. buffer2index bufs a N = Some i \<and> filled s ! i" by blast
  qed
  have full: "p_pc s = P_Full \<and> samples_left s = 0 \<longrightarrow>
      buf_index s < N \<and> \<not> filled s ! buf_index s"
    using prod bi by (simp add: producer_inv_def)
  have inner: "p_pc s = P_Inner \<and> samples_left s \<noteq> 0 \<and> p_num_samples s \<noteq> 0 \<longrightarrow>
      buf_index s < N \<and> \<not> filled s ! buf_index s \<and>
      bufs ! buf_index s \<le> next_value s \<and>
      next_value s + 1 < bufs ! buf_index s + 2 * spb \<and>
      (\<forall>i < N. filled s ! i \<longrightarrow>
         next_value s + 1 < bufs ! i \<or> bufs ! i + 2 * spb \<le> next_value s)"
  proof (intro impI)
    assume a: "p_pc s = P_Inner \<and> samples_left s \<noteq> 0 \<and> p_num_samples s \<noteq> 0"
    have free: "\<not> filled s ! buf_index s" using prod a by (simp add: producer_inv_def)
    have sl: "samples_left s \<le> spb"
      and nv: "next_value s = bufs ! buf_index s + 2 * (spb - samples_left s)"
      using producer_inv_cursor [OF prod] by (simp_all add: facts)
    have lo: "bufs ! buf_index s \<le> next_value s" using nv by simp
    have pos: "0 < samples_left s" using a by simp
    have hi: "next_value s + 1 < bufs ! buf_index s + 2 * spb" using nv sl pos by arith
    have others: "\<forall>i < N. filled s ! i \<longrightarrow>
        next_value s + 1 < bufs ! i \<or> bufs ! i + 2 * spb \<le> next_value s"
    proof (intro allI impI)
      fix i assume i: "i < N" and f: "filled s ! i"
      from f free have "i \<noteq> buf_index s" by auto
      with ok i bi have "bufs ! i + 2 * spb \<le> bufs ! buf_index s \<or>
          bufs ! buf_index s + 2 * spb \<le> bufs ! i"
        unfolding pool_ok_def by blast
      with lo hi show "next_value s + 1 < bufs ! i \<or> bufs ! i + 2 * spb \<le> next_value s"
        by auto
    qed
    show "buf_index s < N \<and> \<not> filled s ! buf_index s \<and>
      bufs ! buf_index s \<le> next_value s \<and>
      next_value s + 1 < bufs ! buf_index s + 2 * spb \<and>
      (\<forall>i < N. filled s ! i \<longrightarrow>
         next_value s + 1 < bufs ! i \<or> bufs ! i + 2 * spb \<le> next_value s)"
      using bi free lo hi others by blast
  qed
  show ?thesis using alt ret fly call full inner by blast
qed

lemmas step_defs = step_def work_call_def producer_step_def consumer_step_def
  callback_null_def callback_done_def submit_def stream_end_def wake_producer_def
  wake_consumer_def destructor_step_def

lemma replicate_2: "replicate 2 x = [x, x]"
  by (simp add: numeral_2_eq_2)

lemma demo_pool_ok: "pool_ok 2 1 1 [100, 102]"
  by (simp add: pool_ok_def numeral_2_eq_2 less_Suc_eq)

lemma demo_run_handed:
  "run [Work [demo_sample], Producer, Producer, Producer, Producer, Callback_Null, Consumer]
     demo_pool =
   Some \<lparr>running = True, n_buffers = 2, n_samples = 1, n_transfers = 1,
         buffers = [100, 102], mem = write_sample demo_sample 100 (\<lambda>a. 0),
         filled = [True, False], buf_index = 1, next_to_tx = 1, next_value = 102,
         samples_left = 1, p_pc = P_Outer, p_running = True, p_num_samples = 0,
         p_noutput = 1, p_in = [], c_pc = C_Ret (Some 100), inflight = [],
         d_pc = D_Idle, lock_held = False, assignments = [(0, True)]\<rparr>"
  by (simp add: demo_pool_def start_pipeline_def step_defs helper_defs buffer2index_def
      replicate_2)

theorem filled_flags_alternate_witness:
  "pool_ok 2 1 1 [100, 102] \<and>
   c_pc (the (run [Work [demo_sample], Producer, Producer, Producer, Producer,
                   Callback_Null, Consumer] demo_pool)) = C_Ret (Some 100) \<and>
   (\<exists>i < 2. (100::nat) = [100, 102] ! i \<and>
      filled (the (run [Work [demo_sample], Producer, Producer, Producer, Producer,
                        Callback_Null, Consumer] demo_pool)) ! i) \<and>
   alternating (slot_history 0
     (the (run [Work [demo_sample], Producer, Producer, Producer, Producer,
                Callback_Null, Consumer] demo_pool))) \<and>
   slot_history 0
     (the (run [Work [demo_sample], Producer, Producer, Producer, Producer,
                Callback_Null, Consumer] demo_pool)) = [True]"
proof -
  define s where "s = the (run [Work [demo_sample], Producer, Producer, Producer,
                                Producer, Callback_Null, Consumer] demo_pool)"
  have run: "run [Work [demo_sample], Producer, Producer, Producer, Producer,
                  Callback_Null, Consumer] demo_pool = Some s"
    unfolding s_def demo_run_handed by simp
  have "reach demo_pool demo_pool" by (rule reach_start)
  with run have "reach demo_pool s" by (rule run_reach)
  then have r: "reach (start_pipeline 2 1 1 [100, 102]) s" by (simp only: demo_pool_def)
  note t = filled_flags_alternate [OF demo_pool_ok r]
  have c: "c_pc s = C_Ret (Some 100)" unfolding s_def demo_run_handed by simp
  have x: "\<exists>i < 2. (100::nat) = [100, 102] ! i \<and> filled s ! i"
    by (rule t [THEN conjunct2, THEN conjunct1, rule_format, OF c])
  have "(0::nat) < 2" by simp
  then have y: "alternating (slot_history 0 s)"
    by (rule t [THEN conjunct1, rule_format])
  have z: "slot_history 0 s = [True]"
    unfolding s_def demo_run_handed by (simp add: slot_history_def)
  show ?thesis
    unfolding s_def [symmetric] by (intro conjI demo_pool_ok c x y z)
qed

subsection \<open>\<open>get_next_buffer\<close>\<close>

lemma next_buffer_outcome:
  "c_pc (next_buffer t) =
     (if running t \<and> \<not> filled (next_buffer t) ! next_to_tx t then C_Waiting
      else if running t then C_Ret (Some (buffers t ! next_to_tx t)) else C_Ret None) \<and>
   next_to_tx (next_buffer t) =
     (if running t \<and> filled (next_buffer t) ! next_to_tx t
      then (next_to_tx t + 1) mod n_buffers t else next_to_tx t)"
  by (simp add: next_buffer_c_pc next_buffer_next_to_tx next_buffer_fields)

lemma demo_returned_run:
  "run [Work [demo_sample, demo_sample, demo_sample], Producer, Producer, Producer,
        Producer, Producer, Producer, Producer, Producer, Callback_Null, Consumer,
        Submit, Callback_Done] demo_pool = Some demo_returned"
  by (simp add: demo_pool_def demo_returned_def start_pipeline_def step_defs helper_defs
      buffer2index_def replicate_2)

lemma demo_stopping_run:
  "run [Callback_Null, Destructor] demo_pool = Some demo_stopping"
  by (simp add: demo_pool_def demo_stopping_def start_pipeline_def step_defs helper_defs
      replicate_2)

lemma demo_returned_second_run:
  "run [Consumer, Producer, Producer, Producer, Producer, Producer, Submit, Callback_Done]
     demo_returned = Some demo_returned_second"
  by (simp add: demo_returned_def demo_returned_second_def step_defs helper_defs
      buffer2index_def replicate_2 numeral_2_eq_2)

lemma buffer2index_None:
  "(buffer2index bufs a n = None) = (\<forall>i < n. bufs ! i \<noteq> a)"
  by (auto simp: buffer2index_def find_None_iff)

lemma buffer2index_Some:
  assumes "buffer2index bufs a n = Some i"
  shows "i < n \<and> bufs ! i = a \<and> (\<forall>j < i. bufs ! j \<noteq> a)"
proof -
  from assms obtain k where k: "k < length [0..<n]" "a = bufs ! ([0..<n] ! k)"
    "i = [0..<n] ! k" "\<forall>j < k. a \<noteq> bufs ! ([0..<n] ! j)"
    unfolding buffer2index_def find_Some_iff by blast
  from k(1) have kn: "k < n" by simp
  then have ik: "i = k" using k(3) by simp
  have "\<forall>j < k. bufs ! j \<noteq> a"
  proof (intro allI impI)
    fix j assume "j < k"
    with k(4) kn have "a \<noteq> bufs ! ([0..<n] ! j)" by simp
    moreover from \<open>j < k\<close> kn have "[0..<n] ! j = j" by simp
    ultimately show "bufs ! j \<noteq> a" by simp
  qed
  with kn k(2) ik show ?thesis by simp
qed

text \<open>
  C4. One pass of \<open>get_next_buffer\<close> under the lock, from its entry with the pointer
  \<open>samples\<close> handed back by the engine (\<open>None\<close> is NULL) or from a wake-up of its wait.
  A pointer that is the address of no buffer of the pool makes \<open>buffer2index\<close> throw,
  nothing else changed. Otherwise the slot whose buffer the pointer is (the first such
  slot) is marked unfilled and the Producer waiting on \<open>_buffer_emptied\<close> is woken,
  before the test of the wait loop; then the call waits when the flag is set and the slot
  at \<open>_next_to_tx\<close> is not filled, returns the buffer at \<open>_next_to_tx\<close> and advances the
  cursor by one modulo the pool size when the flag is set and the slot is filled, and
  returns NULL, the cursor unchanged, when the flag is clear.
\<close>

theorem get_next_buffer_contract:
  assumes free: "\<not> lock_held s"
    and pc: "c_pc s = C_Call samples \<or> c_pc s = C_Woken \<and> samples = None"
  shows "\<exists>s'. consumer_step s = Some s' \<and>
           (if \<exists>a. samples = Some a \<and> (\<forall>i < n_buffers s. buffers s ! i \<noteq> a)
            then s' = s\<lparr>c_pc := C_Threw\<rparr>
            else
              (case samples of
                 None \<Rightarrow> filled s' = filled s
               | Some a \<Rightarrow>
                   (\<exists>i < n_buffers s. buffers s ! i = a \<and> (\<forall>j < i. buffers s ! j \<noteq> a) \<and>
                      filled s' = (filled s)[i := False])) \<and>
              p_pc s' = (if samples \<noteq> None \<and> p_pc s = P_Waiting then P_Woken else p_pc s) \<and>
              c_pc s' =
                (if running s \<and> \<not> filled s' ! next_to_tx s then C_Waiting
                 else if running s then C_Ret (Some (buffers s ! next_to_tx s))
                 else C_Ret None) \<and>
              next_to_tx s' =
                (if running s \<and> filled s' ! next_to_tx s
                 then (next_to_tx s + 1) mod n_buffers s else next_to_tx s))"
proof (cases samples)
  case None
  with pc have "c_pc s = C_Call None \<or> c_pc s = C_Woken" by auto
  with free have st: "consumer_step s = Some (next_buffer s)" by (rule consumer_step_null)
  show ?thesis
    unfolding st None using next_buffer_outcome [of s]
    by (simp add: next_buffer_fields)
next
  case (Some a)
  with pc have c: "c_pc s = C_Call (Some a)" by simp
  show ?thesis
  proof (cases "buffer2index (buffers s) a (n_buffers s)")
    case None
    with free c have "consumer_step s = Some (s\<lparr>c_pc := C_Threw\<rparr>)"
      by (simp add: consumer_step_def)
    moreover from None have "\<forall>i < n_buffers s. buffers s ! i \<noteq> a"
      by (simp add: buffer2index_None)
    ultimately show ?thesis using Some by simp
  next
    case ix: (Some i)
    let ?t = "notify_buffer_emptied (set_filled i False s)"
    note f = release_fields [of i s]
    note b = buffer2index_Some [OF ix]
    from free c ix have st: "consumer_step s = Some (next_buffer ?t)"
      by (rule consumer_step_returned)
    from b have ex: "\<not> (\<forall>i < n_buffers s. buffers s ! i \<noteq> a)" by blast
    have slot: "\<exists>i < n_buffers s. buffers s ! i = a \<and> (\<forall>j < i. buffers s ! j \<noteq> a) \<and>
        filled (next_buffer ?t) = (filled s)[i := False]"
      using b by (intro exI [of _ i]) (simp add: next_buffer_fields f)
    have out: "p_pc (next_buffer ?t) = (if p_pc s = P_Waiting then P_Woken else p_pc s) \<and>
        c_pc (next_buffer ?t) =
          (if running s \<and> \<not> filled (next_buffer ?t) ! next_to_tx s then C_Waiting
           else if running s then C_Ret (Some (buffers s ! next_to_tx s))
           else C_Ret None) \<and>
        next_to_tx (next_buffer ?t) =
          (if running s \<and> filled (next_buffer ?t) ! next_to_tx s
           then (next_to_tx s + 1) mod n_buffers s else next_to_tx s)"
      using next_buffer_outcome [of ?t] by (simp add: next_buffer_fields f)
    have cond: "\<not> (\<exists>a'. Some a = Some a' \<and> (\<forall>i < n_buffers s. buffers s ! i \<noteq> a'))"
      using ex by simp
    have ne: "Some a \<noteq> None" by simp
    show ?thesis
      unfolding st Some
      by (rule exI [of _ "next_buffer ?t"])
        (simp only: if_not_P [OF cond] option.case simp_thms if_True ne slot out)
  qed
qed

theorem get_next_buffer_contract_witness:
  "filled (the (consumer_step demo_returned_second)) = [True, False] \<and>
   p_pc (the (consumer_step demo_returned_second)) = P_Woken \<and>
   c_pc (the (consumer_step demo_returned_second)) = C_Ret (Some 100) \<and>
   next_to_tx (the (consumer_step demo_returned_second)) = 1 \<and>
   c_pc (the (consumer_step demo_stopping)) = C_Ret None \<and>
   next_to_tx (the (consumer_step demo_stopping)) = 0 \<and>
   the (consumer_step (demo_returned_second\<lparr>c_pc := C_Call (Some 101)\<rparr>)) =
     demo_returned_second\<lparr>c_pc := C_Threw\<rparr>"
proof -
  let ?d = demo_returned_second
  have h: "\<not> lock_held ?d"
    "c_pc ?d = C_Call (Some 102) \<or> c_pc ?d = C_Woken \<and> Some (102::nat) = None"
    by (simp_all add: demo_returned_second_def)
  have here: "\<not> (\<forall>i < n_buffers ?d. buffers ?d ! i \<noteq> 102)"
    by (simp add: demo_returned_second_def numeral_2_eq_2 less_Suc_eq)
  from get_next_buffer_contract [OF h] here
  obtain s' i where st: "consumer_step ?d = Some s'"
    and i: "i < n_buffers ?d" "buffers ?d ! i = 102"
    and fl: "filled s' = (filled ?d)[i := False]"
    and pp: "p_pc s' = (if p_pc ?d = P_Waiting then P_Woken else p_pc ?d)"
    and cp: "c_pc s' =
         (if running ?d \<and> \<not> filled s' ! next_to_tx ?d then C_Waiting
          else if running ?d then C_Ret (Some (buffers ?d ! next_to_tx ?d))
               else C_Ret None)"
    and nx: "next_to_tx s' =
         (if running ?d \<and> filled s' ! next_to_tx ?d
          then (next_to_tx ?d + 1) mod n_buffers ?d else next_to_tx ?d)"
    by auto
  from i have "i = 1"
    by (auto simp: demo_returned_second_def numeral_2_eq_2 less_Suc_eq)
  with fl have fl': "filled s' = [True, False]" by (simp add: demo_returned_second_def)
  have a: "the (consumer_step ?d) = s'" by (simp add: st)
  have pp': "p_pc s' = P_Woken" using pp by (simp add: demo_returned_second_def)
  have cp': "c_pc s' = C_Ret (Some 100)" using cp by (simp add: fl' demo_returned_second_def)
  have nx': "next_to_tx s' = 1" using nx by (simp add: fl' demo_returned_second_def)
  have "\<not> lock_held demo_stopping"
    and "c_pc demo_stopping = C_Call None \<or> c_pc demo_stopping = C_Woken \<and> None = None"
    by (simp_all add: demo_stopping_def)
  from get_next_buffer_contract [OF this]
  obtain t' where st2: "consumer_step demo_stopping = Some t'"
    and cp2: "c_pc t' =
         (if running demo_stopping \<and> \<not> filled t' ! next_to_tx demo_stopping
          then C_Waiting
          else if running demo_stopping
               then C_Ret (Some (buffers demo_stopping ! next_to_tx demo_stopping))
               else C_Ret None)"
    and nx2: "next_to_tx t' =
         (if running demo_stopping \<and> filled t' ! next_to_tx demo_stopping
          then (next_to_tx demo_stopping + 1) mod n_buffers demo_stopping
          else next_to_tx demo_stopping)"
    by auto
  have b: "the (consumer_step demo_stopping) = t'" by (simp add: st2)
  have cp2': "c_pc t' = C_Ret None" using cp2 by (simp add: demo_stopping_def)
  have nx2': "next_to_tx t' = 0" using nx2 by (simp add: demo_stopping_def)
  let ?e = "demo_returned_second\<lparr>c_pc := C_Call (Some 101)\<rparr>"
  have h3: "\<not> lock_held ?e"
    "c_pc ?e = C_Call (Some 101) \<or> c_pc ?e = C_Woken \<and> Some (101::nat) = None"
    by (simp_all add: demo_returned_second_def)
  have none: "\<forall>i < n_buffers ?e. buffers ?e ! i \<noteq> 101"
    by (simp add: demo_returned_second_def numeral_2_eq_2 less_Suc_eq)
  from get_next_buffer_contract [OF h3] none
  have c: "the (consumer_step ?e) = demo_returned_second\<lparr>c_pc := C_Threw\<rparr>"
    by auto
  show ?thesis unfolding a b c using fl' pp' cp' nx' cp2' nx2' by simp
qed

subsection \<open>Runs\<close>

lemma small_pool_eq: "small_pool = start_pipeline 2 1024 1 [100, 2148]"
proof -
  have "unat (num_buffers (configure small_args)) = 2"
    by (simp add: configure_def small_args_def key_value_def configure_num_buffers_def
        Let_def word_le_nat_alt)
  moreover have "unat (samples_per_buffer (configure small_args)) = 1024"
    by (simp add: configure_def small_args_def key_value_def Let_def
        unat_configure_samples_per_buffer)
  moreover have "unat (transfers (configure small_args)) = 1"
    by (simp add: configure_def small_args_def key_value_def Let_def
        unat_configure_transfers configure_num_buffers_def word_le_nat_alt)
  ultimately show ?thesis by (simp add: small_pool_def constructed_def)
qed

lemma run_append:
  "run (as @ bs) s = (case run as s of None \<Rightarrow> None | Some s' \<Rightarrow> run bs s')"
  by (induction as arbitrary: s) (simp_all split: option.splits)

lemma run_append_Some: "run as s = Some s' \<Longrightarrow> run (as @ bs) s = run bs s'"
  by (simp add: run_append)

lemma inner_loop_run:
  assumes "p_pc s = P_Inner" "n \<le> samples_left s" "n \<le> length (p_in s)"
    "p_num_samples s = int (length (p_in s))"
  shows "run (replicate n Producer) s =
           Some (s\<lparr>mem := write_samples (take n (p_in s)) (next_value s) (mem s),
                   next_value := next_value s + 2 * n,
                   p_in := drop n (p_in s),
                   p_num_samples := p_num_samples s - int n,
                   samples_left := samples_left s - n\<rparr>)"
  using assms
proof (induction n arbitrary: s)
  case 0
  then show ?case by simp
next
  case (Suc n)
  from Suc.prems obtain x xs where xs: "p_in s = x # xs" by (cases "p_in s") simp_all
  let ?s = "s\<lparr>mem := write_sample x (next_value s) (mem s),
             next_value := next_value s + 2, p_in := xs,
             p_num_samples := p_num_samples s - 1,
             samples_left := samples_left s - 1\<rparr>"
  have st: "producer_step s = Some ?s"
    using Suc.prems xs by (intro producer_step_inner_write) simp_all
  have "run (replicate n Producer) ?s =
          Some (?s\<lparr>mem := write_samples (take n (p_in ?s)) (next_value ?s) (mem ?s),
                   next_value := next_value ?s + 2 * n,
                   p_in := drop n (p_in ?s),
                   p_num_samples := p_num_samples ?s - int n,
                   samples_left := samples_left ?s - n\<rparr>)"
    using Suc.prems xs by (intro Suc.IH) simp_all
  then show ?case
    by (simp add: step_def st xs)
qed

subsection \<open>What a step leaves of the other threads' variables\<close>

lemma consumer_step_cases:
  assumes "consumer_step s = Some s'"
  obtains (plain) "c_pc s = C_Call None \<or> c_pc s = C_Woken" "s' = next_buffer s"
  | (returned) a i where "c_pc s = C_Call (Some a)"
      "buffer2index (buffers s) a (n_buffers s) = Some i"
      "s' = next_buffer (notify_buffer_emptied (set_filled i False s))"
  | (threw) a where "c_pc s = C_Call (Some a)" "s' = s\<lparr>c_pc := C_Threw\<rparr>"
proof -
  from consumer_step_enabled [OF assms] have lock: "\<not> lock_held s"
    and pc: "(\<exists>x. c_pc s = C_Call x) \<or> c_pc s = C_Woken" by simp_all
  show thesis
  proof (cases "\<exists>a. c_pc s = C_Call (Some a)")
    case False
    with pc have p: "c_pc s = C_Call None \<or> c_pc s = C_Woken" by auto
    with assms lock have "s' = next_buffer s" by (simp add: consumer_step_null)
    with p show thesis by (rule plain)
  next
    case True
    then obtain a where a: "c_pc s = C_Call (Some a)" by blast
    show thesis
    proof (cases "buffer2index (buffers s) a (n_buffers s)")
      case None
      with assms lock a have "s' = s\<lparr>c_pc := C_Threw\<rparr>"
        by (simp add: consumer_step_def)
      with a show thesis by (rule threw)
    next
      case (Some i)
      with assms lock a
      have "s' = next_buffer (notify_buffer_emptied (set_filled i False s))"
        by (simp add: consumer_step_returned)
      with a Some show thesis by (rule returned)
    qed
  qed
qed

lemma destructor_step_frame:
  assumes "destructor_step s = Some s'"
  shows "p_noutput s' = p_noutput s" "p_num_samples s' = p_num_samples s"
    "p_running s' = p_running s"
    "p_pc s' = p_pc s \<or> d_pc s = D_Notified_Samp_Avail \<and> p_pc s = P_Waiting \<and> p_pc s' = P_Woken"
    "c_pc s' = c_pc s \<or> d_pc s = D_Locked \<and> c_pc s = C_Waiting \<and> c_pc s' = C_Woken"
    "running s' = (running s \<and> d_pc s \<noteq> D_Idle)"
    "d_rank (d_pc s') = Suc (d_rank (d_pc s))"
    "lock_held s' = (if d_pc s = D_Stopped then True
                     else if d_pc s = D_Notified_Buffer_Emptied then False else lock_held s)"
    "d_pc s = D_Unlocked \<longrightarrow> c_pc s = C_Exited"
    "d_pc s = D_Notified_Samp_Avail \<longrightarrow> p_pc s' \<noteq> P_Waiting"
    "d_pc s = D_Locked \<longrightarrow> c_pc s' \<noteq> C_Waiting"
  using assms
  by (cases "d_pc s";
      simp add: destructor_step_def notify_samp_avail_def notify_buffer_emptied_def
        split: if_splits; auto)+


lemma consumer_step_frame:
  assumes "consumer_step s = Some s'"
  shows "running s' = running s" "lock_held s' = lock_held s" "d_pc s' = d_pc s"
    "p_noutput s' = p_noutput s" "p_num_samples s' = p_num_samples s"
    "p_running s' = p_running s"
    "p_pc s' = p_pc s \<or> p_pc s = P_Waiting \<and> p_pc s' = P_Woken"
    "c_pc s' = C_Waiting \<longrightarrow> running s" "c_pc s \<noteq> C_Exited" "c_pc s' \<noteq> C_Exited"
proof -
  have "running s' = running s \<and> lock_held s' = lock_held s \<and> d_pc s' = d_pc s \<and>
    p_noutput s' = p_noutput s \<and> p_num_samples s' = p_num_samples s \<and>
    p_running s' = p_running s \<and>
    (p_pc s' = p_pc s \<or> p_pc s = P_Waiting \<and> p_pc s' = P_Woken) \<and>
    (c_pc s' = C_Waiting \<longrightarrow> running s) \<and> c_pc s \<noteq> C_Exited \<and> c_pc s' \<noteq> C_Exited"
    using assms
  proof (cases rule: consumer_step_cases)
    case plain
    then show ?thesis by (auto simp: next_buffer_fields next_buffer_c_pc)
  next
    case (returned a i)
    then show ?thesis
      by (simp add: next_buffer_fields next_buffer_c_pc release_fields)
  next
    case (threw a)
    then show ?thesis by simp
  qed
  then show "running s' = running s" "lock_held s' = lock_held s" "d_pc s' = d_pc s"
    "p_noutput s' = p_noutput s" "p_num_samples s' = p_num_samples s"
    "p_running s' = p_running s"
    "p_pc s' = p_pc s \<or> p_pc s = P_Waiting \<and> p_pc s' = P_Woken"
    "c_pc s' = C_Waiting \<longrightarrow> running s" "c_pc s \<noteq> C_Exited" "c_pc s' \<noteq> C_Exited"
    by simp_all
qed

lemma producer_step_cases:
  assumes "producer_step s = Some s'"
  obtains (outer) "p_pc s = P_Outer"
      "s' = s\<lparr>p_pc := (if p_running s \<and> 0 < p_num_samples s then P_Inner
                         else P_Done (if p_running s then p_noutput s else 0))\<rparr>"
  | (inner_exit) "p_pc s = P_Inner" "s' = s\<lparr>p_pc := P_Full\<rparr>"
  | (inner_write) x xs where "p_pc s = P_Inner" "p_in s = x # xs"
      "s' = s\<lparr>mem := write_sample x (next_value s) (mem s),
               next_value := next_value s + 2, p_in := xs,
               p_num_samples := p_num_samples s - 1,
               samples_left := samples_left s - 1\<rparr>"
  | (full_skip) "p_pc s = P_Full" "s' = s\<lparr>p_pc := P_Outer\<rparr>"
  | (rotate) "p_pc s = P_Full" "\<not> lock_held s"
      "s' = wait_for_empty (notify_samp_avail (advance (set_filled (buf_index s) True s)))"
  | (woken) "p_pc s = P_Woken" "\<not> lock_held s"
      "s' = wait_for_empty (s\<lparr>p_running := running s\<rparr>)"
proof -
  from producer_step_enabled [OF assms]
  consider "p_pc s = P_Outer" | "p_pc s = P_Inner" | "p_pc s = P_Full" | "p_pc s = P_Woken"
    by blast
  then show thesis
  proof cases
    case 1
    with assms show thesis by (intro outer) (simp_all add: producer_step_outer)
  next
    case 2
    show thesis
    proof (cases "samples_left s \<noteq> 0 \<and> p_num_samples s \<noteq> 0")
      case False
      with assms 2 show thesis by (intro inner_exit) (auto simp: producer_step_inner_exit)
    next
      case True
      with assms 2 obtain x xs where xs: "p_in s = x # xs"
        by (cases "p_in s") (simp_all add: producer_step_def)
      with assms 2 True show thesis
        by (intro inner_write [of x xs]) (simp_all add: producer_step_inner_write)
    qed
  next
    case 3
    show thesis
    proof (cases "samples_left s = 0")
      case True
      with assms 3 have l: "\<not> lock_held s"
        by (auto simp: producer_step_def split: if_splits)
      with assms 3 True show thesis
        by (intro rotate) (simp_all add: producer_step_full_rotate)
    next
      case False
      with assms 3 show thesis by (intro full_skip) (simp_all add: producer_step_full_skip)
    qed
  next
    case 4
    with assms have l: "\<not> lock_held s"
      by (auto simp: producer_step_def split: if_splits)
    with assms 4 show thesis by (intro woken) (simp_all add: producer_step_woken)
  qed
qed


text \<open>The steps of the engine and the wake-ups, in one: every field but these is kept.\<close>

lemma engine_step_frame:
  assumes "f s = Some s'"
    and "f = callback_null \<or> f = callback_done \<or> f = submit \<or> f = stream_end \<or>
         f = wake_producer \<or> f = wake_consumer"
  shows "running s' \<longrightarrow> running s" "lock_held s' = lock_held s" "d_pc s' = d_pc s"
    "p_noutput s' = p_noutput s" "p_num_samples s' = p_num_samples s"
    "p_running s' = p_running s"
    "p_pc s' = p_pc s \<or> p_pc s = P_Waiting \<and> p_pc s' = P_Woken"
    "c_pc s' = C_Waiting \<longrightarrow> c_pc s = C_Waiting" "c_pc s = C_Exited \<longrightarrow> c_pc s' = C_Exited"
    "f \<noteq> stream_end \<longrightarrow> running s' = running s"
proof -
  have "(running s' \<longrightarrow> running s) \<and> lock_held s' = lock_held s \<and> d_pc s' = d_pc s \<and>
    p_noutput s' = p_noutput s \<and> p_num_samples s' = p_num_samples s \<and>
    p_running s' = p_running s \<and>
    (p_pc s' = p_pc s \<or> p_pc s = P_Waiting \<and> p_pc s' = P_Woken) \<and>
    (c_pc s' = C_Waiting \<longrightarrow> c_pc s = C_Waiting) \<and>
    (c_pc s = C_Exited \<longrightarrow> c_pc s' = C_Exited) \<and>
    (f \<noteq> stream_end \<longrightarrow> running s' = running s)"
    using assms(2)
  proof (elim disjE)
    assume "f = callback_null"
    with assms(1) show ?thesis by (auto simp: callback_null_def split: if_splits)
  next
    assume "f = callback_done"
    with assms(1) show ?thesis
      by (auto simp: callback_done_def split: if_splits list.splits)
  next
    assume "f = submit"
    with assms(1) show ?thesis
      by (auto simp: submit_def split: c_pc.splits option.splits)
  next
    assume "f = stream_end"
    with assms(1) show ?thesis by (auto simp: stream_end_def split: if_splits)
  next
    assume "f = wake_producer"
    with assms(1) show ?thesis by (auto simp: wake_producer_def split: if_splits)
  next
    assume "f = wake_consumer"
    with assms(1) show ?thesis by (auto simp: wake_consumer_def split: if_splits)
  qed
  then show "running s' \<longrightarrow> running s" "lock_held s' = lock_held s" "d_pc s' = d_pc s"
    "p_noutput s' = p_noutput s" "p_num_samples s' = p_num_samples s"
    "p_running s' = p_running s"
    "p_pc s' = p_pc s \<or> p_pc s = P_Waiting \<and> p_pc s' = P_Woken"
    "c_pc s' = C_Waiting \<longrightarrow> c_pc s = C_Waiting" "c_pc s = C_Exited \<longrightarrow> c_pc s' = C_Exited"
    "f \<noteq> stream_end \<longrightarrow> running s' = running s"
    by simp_all
qed

subsection \<open>The return value of \<open>work\<close> and the shutdown\<close>

lemma step_cases:
  assumes "step a s = Some s'"
  obtains (work) items where "a = Work items" "work_call items s = Some s'"
  | (producer) "a = Producer" "producer_step s = Some s'"
  | (consumer) "a = Consumer" "consumer_step s = Some s'"
  | (destructor) "a = Destructor" "destructor_step s = Some s'"
  | (engine) f where "f s = Some s'"
      "f = callback_null \<or> f = callback_done \<or> f = submit \<or> f = stream_end \<or>
       f = wake_producer \<or> f = wake_consumer"
  using assms by (cases a) (auto simp: step_def)

lemma work_call_frame:
  assumes "work_call items s = Some s'"
  shows "running s' = running s" "lock_held s' = lock_held s" "d_pc s' = d_pc s"
    "c_pc s' = c_pc s" "p_idle (p_pc s)" "p_pc s' = P_Outer" "p_running s' = running s"
  using assms by (auto simp: work_call_def split: if_splits)




lemma return_inv_keep:
  assumes "return_inv s" "\<And>r. p_pc s' = P_Done r \<Longrightarrow> p_pc s = P_Done r"
    "p_running s' = p_running s" "p_noutput s' = p_noutput s"
    "p_num_samples s' = p_num_samples s"
  shows "return_inv s'"
  using assms by (simp add: return_inv_def)

lemma return_inv_step:
  assumes inv: "return_inv s" and pinv: "pipeline_inv s" and st: "step a s = Some s'"
  shows "return_inv s'"
  using st
proof (cases rule: step_cases)
  case (work items)
  then show ?thesis by (simp add: return_inv_def work_call_frame(6))
next
  case producer
  from producer(2) show ?thesis
  proof (cases rule: producer_step_cases)
    case outer
    have "p_num_samples s = int (length (p_in s))"
      using pipeline_invD(2) [OF pinv] outer(1) by (simp add: producer_inv_def)
    then have "\<not> 0 < p_num_samples s \<Longrightarrow> p_num_samples s = 0" by simp
    then show ?thesis by (auto simp: return_inv_def outer(2))
  next
    case rotate
    then show ?thesis by (simp add: return_inv_def rotate_fields)
  next
    case woken
    then show ?thesis by (simp add: return_inv_def wait_for_empty_def)
  next
    case (inner_write x xs)
    then show ?thesis by (simp add: return_inv_def)
  qed (simp_all add: return_inv_def)
next
  case consumer
  note f = consumer_step_frame [OF consumer(2)]
  show ?thesis using inv _ f(6,4,5) by (rule return_inv_keep) (use f(7) in auto)
next
  case (engine f)
  note fr = engine_step_frame [OF engine(1,2)]
  show ?thesis using inv _ fr(6,4,5) by (rule return_inv_keep) (use fr(7) in auto)
next
  case destructor
  note f = destructor_step_frame [OF destructor(2)]
  show ?thesis using inv _ f(3,1,2) by (rule return_inv_keep) (use f(4) in auto)
qed

lemma return_inv_reach:
  assumes "reach s0 s" "pipeline_inv s0" "return_inv s0"
  shows "return_inv s"
  using assms
proof (induction rule: reach.induct)
  case reach_start
  then show ?case by simp
next
  case (reach_step s a s')
  then have "return_inv s" by simp
  moreover have "pipeline_inv s" using reach_step.hyps(1) reach_step.prems(1) by (rule reach_inv)
  ultimately show ?case using reach_step.hyps(2) by (rule return_inv_step)
qed



lemma fill_both_run: "run fill_both small_pool = Some blocked"
  by (simp add: fill_both_def blocked_def small_pool_eq start_pipeline_def run_append
      inner_loop_run step_defs helper_defs replicate_2)

lemma small_pool_ok: "pool_ok 2 1024 1 [100, 2148]"
  by (simp add: pool_ok_def numeral_2_eq_2 less_Suc_eq)

lemma blocked_reach: "reach (start_pipeline 2 1024 1 [100, 2148]) blocked"
  using run_reach [OF fill_both_run [unfolded small_pool_eq] reach_start] .

lemma blocked_stop_run:
  "run [Destructor] blocked = Some (blocked\<lparr>running := False, d_pc := D_Stopped\<rparr>)"
  by (simp add: blocked_def step_defs helper_defs)

lemma blocked_wake_run:
  "run [Destructor, Destructor, Destructor, Destructor]
     (blocked\<lparr>running := False, d_pc := D_Stopped\<rparr>) =
   Some (blocked\<lparr>running := False, d_pc := D_Unlocked, p_pc := P_Woken\<rparr>)"
  by (simp add: blocked_def step_defs helper_defs)

lemma blocked_return_run:
  "run [Producer, Producer] (blocked\<lparr>running := False, d_pc := D_Unlocked, p_pc := P_Woken\<rparr>) =
   Some (blocked\<lparr>running := False, d_pc := D_Unlocked, p_running := False, p_pc := P_Done 0\<rparr>)"
  by (simp add: blocked_def step_defs helper_defs)

lemma stopped_idle_run:
  "run [Destructor] small_pool = Some (small_pool\<lparr>running := False, d_pc := D_Stopped\<rparr>)"
  by (simp add: small_pool_eq start_pipeline_def step_defs helper_defs)

lemma demo_full_run:
  "run [Work [demo_sample], Producer, Producer, Producer, Producer, Producer] demo_pool =
   Some (demo_pool\<lparr>mem := write_sample demo_sample 100 (\<lambda>a. 0), filled := [True, False],
           buf_index := 1, next_value := 102, p_pc := P_Done 1, p_running := True,
           p_noutput := 1, assignments := [(0, True)]\<rparr>)"
  by (simp add: demo_pool_def start_pipeline_def step_defs helper_defs replicate_2)

text \<open>
  C1 (amended). In every reachable state in which \<open>work\<close> has returned: if the last
  value the call read from the running flag (its local \<open>running\<close>) is true, the value
  returned is \<open>noutput_items\<close> and every input sample has been consumed; if it is false,
  the value returned is 0, whatever the call has consumed, so a partial count is never
  returned. A call entered with the flag clear returns 0 at once, no sample consumed and
  the buffers untouched; a call woken from its wait with the flag clear returns 0.
\<close>

theorem work_return_value:
  assumes ok: "pool_ok N spb T bufs" and r: "reach (start_pipeline N spb T bufs) s"
  shows "(\<forall>v. p_pc s = P_Done v \<longrightarrow>
            (if p_running s then v = p_noutput s \<and> p_num_samples s = 0 else v = 0)) \<and>
         (\<forall>items. p_idle (p_pc s) \<and> \<not> running s \<longrightarrow>
            run [Work items, Producer] s =
              Some (s\<lparr>p_in := items, p_noutput := int (length items), p_running := False,
                      p_num_samples := int (length items), p_pc := P_Done 0\<rparr>)) \<and>
         (p_pc s = P_Woken \<and> \<not> lock_held s \<and> \<not> running s \<longrightarrow>
            run [Producer, Producer] s = Some (s\<lparr>p_running := False, p_pc := P_Done 0\<rparr>))"
proof (intro conjI allI impI)
  fix v
  assume "p_pc s = P_Done v"
  moreover note return_inv_reach [OF r start_inv [OF ok]]
  moreover have "return_inv (start_pipeline N spb T bufs)"
    by (simp add: return_inv_def start_pipeline_def)
  ultimately show "if p_running s then v = p_noutput s \<and> p_num_samples s = 0 else v = 0"
    by (simp add: return_inv_def)
next
  fix items
  assume "p_idle (p_pc s) \<and> \<not> running s"
  then show "run [Work items, Producer] s =
      Some (s\<lparr>p_in := items, p_noutput := int (length items), p_running := False,
              p_num_samples := int (length items), p_pc := P_Done 0\<rparr>)"
    by (simp add: step_def work_call_def producer_step_def)
next
  assume "p_pc s = P_Woken \<and> \<not> lock_held s \<and> \<not> running s"
  then show "run [Producer, Producer] s = Some (s\<lparr>p_running := False, p_pc := P_Done 0\<rparr>)"
    by (simp add: step_def producer_step_def wait_for_empty_def)
qed

theorem work_return_value_witness:
  "pool_ok 2 1 1 [100, 102] \<and>
   run [Work [demo_sample], Producer, Producer, Producer, Producer, Producer]
     (start_pipeline 2 1 1 [100, 102]) \<noteq> None \<and>
   p_pc (the (run [Work [demo_sample], Producer, Producer, Producer, Producer, Producer]
     (start_pipeline 2 1 1 [100, 102]))) = P_Done 1 \<and>
   p_running (the (run [Work [demo_sample], Producer, Producer, Producer, Producer, Producer]
     (start_pipeline 2 1 1 [100, 102]))) \<and>
   p_noutput (the (run [Work [demo_sample], Producer, Producer, Producer, Producer, Producer]
     (start_pipeline 2 1 1 [100, 102]))) = 1 \<and>
   p_num_samples (the (run [Work [demo_sample], Producer, Producer, Producer, Producer, Producer]
     (start_pipeline 2 1 1 [100, 102]))) = 0 \<and>
   pool_ok 2 1024 1 [100, 2148] \<and>
   reach (start_pipeline 2 1024 1 [100, 2148]) (small_pool\<lparr>running := False, d_pc := D_Stopped\<rparr>) \<and>
   p_idle (p_pc (small_pool\<lparr>running := False, d_pc := D_Stopped\<rparr>)) \<and>
   \<not> running (small_pool\<lparr>running := False, d_pc := D_Stopped\<rparr>) \<and>
   run [Work [demo_sample, demo_sample], Producer] (small_pool\<lparr>running := False, d_pc := D_Stopped\<rparr>) =
     Some (small_pool\<lparr>running := False, d_pc := D_Stopped, p_in := [demo_sample, demo_sample],
             p_noutput := 2, p_running := False, p_num_samples := 2, p_pc := P_Done 0\<rparr>) \<and>
   reach (start_pipeline 2 1024 1 [100, 2148])
     (blocked\<lparr>running := False, d_pc := D_Unlocked, p_pc := P_Woken\<rparr>) \<and>
   p_pc (blocked\<lparr>running := False, d_pc := D_Unlocked, p_pc := P_Woken\<rparr>) = P_Woken \<and>
   \<not> lock_held (blocked\<lparr>running := False, d_pc := D_Unlocked, p_pc := P_Woken\<rparr>) \<and>
   \<not> running (blocked\<lparr>running := False, d_pc := D_Unlocked, p_pc := P_Woken\<rparr>) \<and>
   run [Producer, Producer] (blocked\<lparr>running := False, d_pc := D_Unlocked, p_pc := P_Woken\<rparr>) =
     Some (blocked\<lparr>running := False, d_pc := D_Unlocked, p_running := False, p_pc := P_Done 0\<rparr>) \<and>
   p_noutput (blocked\<lparr>running := False, d_pc := D_Unlocked, p_running := False, p_pc := P_Done 0\<rparr>) = 2049"
proof -
  define s0 where "s0 = the (run [Work [demo_sample], Producer, Producer, Producer, Producer,
     Producer] (start_pipeline 2 1 1 [100, 102]))"
  define s1 where "s1 = small_pool\<lparr>running := False, d_pc := D_Stopped\<rparr>"
  define s2 where "s2 = blocked\<lparr>running := False, d_pc := D_Unlocked, p_pc := P_Woken\<rparr>"
  note full = demo_full_run [unfolded demo_pool_def]
  have n0: "run [Work [demo_sample], Producer, Producer, Producer, Producer, Producer]
     (start_pipeline 2 1 1 [100, 102]) \<noteq> None"
    unfolding full by simp
  have "run [Work [demo_sample], Producer, Producer, Producer, Producer, Producer]
     (start_pipeline 2 1 1 [100, 102]) = Some s0"
    unfolding s0_def full by simp
  then have r0: "reach (start_pipeline 2 1 1 [100, 102]) s0"
    using reach_start by (rule run_reach)
  have pc0: "p_pc s0 = P_Done 1" and run0: "p_running s0"
    unfolding s0_def full by simp_all
  note t0 = work_return_value [OF demo_pool_ok r0]
  have "if p_running s0 then 1 = p_noutput s0 \<and> p_num_samples s0 = 0 else (1::int) = 0"
    by (rule t0 [THEN conjunct1, rule_format, OF pc0])
  with run0 have ret0: "p_noutput s0 = 1" "p_num_samples s0 = 0" by simp_all
  have r1: "reach (start_pipeline 2 1024 1 [100, 2148]) s1"
    unfolding s1_def
    by (rule run_reach [OF stopped_idle_run]) (simp add: small_pool_eq reach_start)
  have "reach (start_pipeline 2 1024 1 [100, 2148]) (blocked\<lparr>running := False, d_pc := D_Stopped\<rparr>)"
    by (rule run_reach [OF blocked_stop_run blocked_reach])
  then have r2: "reach (start_pipeline 2 1024 1 [100, 2148]) s2"
    unfolding s2_def by (rule run_reach [OF blocked_wake_run])
  have i1: "p_idle (p_pc s1) \<and> \<not> running s1"
    by (simp add: s1_def small_pool_eq start_pipeline_def)
  have i2: "p_pc s2 = P_Woken \<and> \<not> lock_held s2 \<and> \<not> running s2"
    by (simp add: s2_def blocked_def)
  note t1 = work_return_value [OF small_pool_ok r1]
  note t2 = work_return_value [OF small_pool_ok r2]
  have a: "run [Work [demo_sample, demo_sample], Producer] s1 =
      Some (s1\<lparr>p_in := [demo_sample, demo_sample], p_noutput := int (length [demo_sample, demo_sample]),
              p_running := False, p_num_samples := int (length [demo_sample, demo_sample]),
              p_pc := P_Done 0\<rparr>)"
    by (rule t1 [THEN conjunct2, THEN conjunct1, rule_format, OF i1])
  have b: "run [Producer, Producer] s2 = Some (s2\<lparr>p_running := False, p_pc := P_Done 0\<rparr>)"
    by (rule t2 [THEN conjunct2, THEN conjunct2, rule_format, OF i2])
  have c: "p_noutput (s2\<lparr>p_running := False, p_pc := P_Done 0\<rparr>) = 2049"
    by (simp add: s2_def blocked_def)
  from a have a': "run [Work [demo_sample, demo_sample], Producer] s1 =
      Some (s1\<lparr>p_in := [demo_sample, demo_sample], p_noutput := 2,
              p_running := False, p_num_samples := 2, p_pc := P_Done 0\<rparr>)"
    by simp
  have first: "pool_ok 2 1 1 [100, 102] \<and>
      run [Work [demo_sample], Producer, Producer, Producer, Producer, Producer]
        (start_pipeline 2 1 1 [100, 102]) \<noteq> None \<and>
      p_pc s0 = P_Done 1 \<and> p_running s0 \<and> p_noutput s0 = 1 \<and> p_num_samples s0 = 0"
    using demo_pool_ok n0 pc0 run0 ret0 by (intro conjI)
  have rest: "pool_ok 2 1024 1 [100, 2148] \<and> reach (start_pipeline 2 1024 1 [100, 2148]) s1 \<and>
      p_idle (p_pc s1) \<and> \<not> running s1 \<and>
      run [Work [demo_sample, demo_sample], Producer] s1 =
        Some (s1\<lparr>p_in := [demo_sample, demo_sample], p_noutput := 2,
                p_running := False, p_num_samples := 2, p_pc := P_Done 0\<rparr>) \<and>
      reach (start_pipeline 2 1024 1 [100, 2148]) s2 \<and>
      p_pc s2 = P_Woken \<and> \<not> lock_held s2 \<and> \<not> running s2 \<and>
      run [Producer, Producer] s2 = Some (s2\<lparr>p_running := False, p_pc := P_Done 0\<rparr>) \<and>
      p_noutput (s2\<lparr>p_running := False, p_pc := P_Done 0\<rparr>) = 2049"
    using small_pool_ok r1 i1 a' r2 i2 b c by simp
  from first rest show ?thesis
    unfolding s0_def s1_def s2_def by simp
qed





text \<open>
  C1 as stated fails: a call of \<open>work\<close> with 2049 samples fills both buffers of
  \<open>small_pool\<close> (2048 samples consumed) and waits; the destructor clears the flag and
  wakes it; the call returns 0, not 2048.
\<close>

theorem work_partial_count_counterexample:
  "run (fill_both @ [Destructor, Destructor, Destructor, Destructor, Destructor, Producer, Producer])
     small_pool \<noteq> None \<and>
   p_pc (the (run (fill_both @
     [Destructor, Destructor, Destructor, Destructor, Destructor, Producer, Producer]) small_pool)) =
     P_Done 0 \<and>
   p_noutput (the (run (fill_both @
     [Destructor, Destructor, Destructor, Destructor, Destructor, Producer, Producer]) small_pool)) -
   p_num_samples (the (run (fill_both @
     [Destructor, Destructor, Destructor, Destructor, Destructor, Producer, Producer]) small_pool)) =
     2048 \<and>
   filled (the (run (fill_both @
     [Destructor, Destructor, Destructor, Destructor, Destructor, Producer, Producer]) small_pool)) =
     [True, True]"
proof -
  have "run (fill_both @ [Destructor, Destructor, Destructor, Destructor, Destructor, Producer, Producer])
     small_pool = Some (blocked\<lparr>running := False, d_pc := D_Unlocked, p_running := False, p_pc := P_Done 0\<rparr>)"
    unfolding run_append fill_both_run
    by (simp add: blocked_def step_defs helper_defs)
  then show ?thesis by (simp add: blocked_def)
qed

end
